theory Spec2Isabelle
  imports Main "HOL-Library.AList"
begin

section \<open>RowNodeCache: data model\<close>

text \<open>
  A shallow embedding of \<^verbatim>\<open>rowNodeCache.ts\<close>. JavaScript numbers are modelled as
  \<^typ>\<open>int\<close> (block numbers, row counts and indexes are integers in every caller);
  the places where JavaScript arithmetic on a missing value or a zero divisor yields
  \<^verbatim>\<open>NaN\<close> are written out with \<^typ>\<open>'a option\<close>. Objects that the code compares
  with \<^verbatim>\<open>===\<close> carry an identity: a row node is its identity, a block has the field
  \<open>objId\<close>.
\<close>

type_synonym rowNode = nat

text \<open>
  Modelled from the spec: the load states of \<^verbatim>\<open>RowNodeBlock\<close>, whose class is not among
  the sources; the cache only compares a state with \<^verbatim>\<open>STATE_DIRTY\<close>.
\<close>

datatype block_state = STATE_DIRTY | STATE_LOADING | STATE_LOADED | STATE_FAILED

text \<open>A possibly missing JavaScript number, as the display-index getters of a block return it.\<close>

datatype jsnum = JsUndefined | JsNull | JsNum int

text \<open>
  The block interface the cache consumes (\<^verbatim>\<open>IRowNodeBlock\<close> / \<^verbatim>\<open>RowNodeBlock\<close>); the
  class itself is not part of the sources, so each getter the cache calls is a field.
  \<open>isAnyNodeOpen\<close> takes the row count it is asked about; \<open>forEachNodeShallow\<close> is
  the sequence of row nodes the block hands to the callback for a given row count.
\<close>

record block =
  objId :: nat
  getBlockNumber :: int
  getLastAccessed :: int
  getState :: block_state
  isAnyNodeOpen :: "int \<Rightarrow> bool"
  getDisplayIndexStart :: jsnum
  getDisplayIndexEnd :: jsnum
  forEachNodeShallow :: "int \<Rightarrow> rowNode list"

text \<open>
  The parameters the cache reads. \<^verbatim>\<open>blockSize\<close> is optional in the interface and is taken
  as set; \<^verbatim>\<open>maxBlocksInCache\<close> may be absent.
\<close>

record rowNodeCacheParams =
  initialRowCount :: int
  blockSize :: int
  overflowSize :: int
  maxBlocksInCache :: "int option"

text \<open>
  Calls into the collaborators (block loader, bean destruction, event dispatch, listener
  registration) are recorded in the order they happen.
\<close>

datatype effect =
    LoaderLoadComplete
  | LoaderCheckBlockToLoad
  | LoaderAddBlock nat
  | LoaderRemoveBlock nat
  | DestroyBean nat
  | AddLoadCompleteListener nat
  | DispatchCacheUpdated

text \<open>
  The cache object. \<open>blocks\<close> is the JavaScript object used as a dictionary, kept as
  an association list that is only changed through \<^const>\<open>AList.update\<close> and
  \<^const>\<open>AList.delete\<close>. The two viewport rows are what the row renderer reports.
\<close>

record cache =
  virtualRowCount :: int
  maxRowFound :: bool
  cacheParams :: rowNodeCacheParams
  active :: bool
  blocks :: "(int \<times> block) list"
  blockCount :: int
  getFirstVirtualRenderedRow :: int
  getLastVirtualRenderedRow :: int
  effects :: "effect list"

record loadEvent =
  page :: block
  lastRow :: "int option"
  success :: bool

record rangeWalk =
  result :: "rowNode list"
  lastBlockId :: int
  inActiveRange :: bool
  foundGapInSelection :: bool

section \<open>RowNodeCache: operations\<close>

definition MAX_EMPTY_BLOCKS_TO_KEEP :: int where
  "MAX_EMPTY_BLOCKS_TO_KEEP = 2"

text \<open>
  Modelled from the spec: \<^verbatim>\<open>exists\<close> and \<^verbatim>\<open>missing\<close> of \<^verbatim>\<open>utils/generic\<close> are not
  among the sources. An argument that was not passed (or is null) is \<open>None\<close>; the
  tri-state flag of \<^verbatim>\<open>setVirtualRowCount\<close> is set for both \<open>Some True\<close> and
  \<open>Some False\<close>.
\<close>

definition exists :: "'a option \<Rightarrow> bool" where
  "exists v = (v \<noteq> None)"

definition missing :: "'a option \<Rightarrow> bool" where
  "missing v = (\<not> exists v)"

text \<open>
  JavaScript's \<^verbatim>\<open>a % b\<close> on integers: \<^verbatim>\<open>NaN\<close> (here \<open>None\<close>) for a zero divisor,
  otherwise the remainder of the truncating division, with the sign of the dividend.
\<close>

definition js_rem :: "int \<Rightarrow> int \<Rightarrow> int option" where
  "js_rem a b = (if b = 0 then None else Some (sgn a * (\<bar>a\<bar> mod \<bar>b\<bar>)))"

text \<open>The constructor followed by \<^verbatim>\<open>init\<close>, for a renderer showing rows \<open>fr\<close> to \<open>lr\<close>.\<close>

definition newCache :: "rowNodeCacheParams \<Rightarrow> int \<Rightarrow> int \<Rightarrow> cache" where
  "newCache p fr lr =
     \<lparr>virtualRowCount = initialRowCount p, maxRowFound = False, cacheParams = p,
      active = True, blocks = [], blockCount = 0,
      getFirstVirtualRenderedRow = fr, getLastVirtualRenderedRow = lr, effects = []\<rparr>"

definition isActive :: "cache \<Rightarrow> bool" where
  "isActive c = active c"

definition emit :: "effect list \<Rightarrow> cache \<Rightarrow> cache" where
  "emit es c = c\<lparr>effects := effects c @ es\<rparr>"

definition getBlockIdsSorted :: "cache \<Rightarrow> int list" where
  "getBlockIdsSorted c = sort (map fst (blocks c))"

text \<open>
  \<^verbatim>\<open>forEachBlockId\<close>: the block of each id is looked up when its turn comes, in the
  cache as the earlier callbacks left it, so a callback may receive no block.
\<close>

fun forEachBlockId ::
  "int list \<Rightarrow> (block option \<Rightarrow> int \<Rightarrow> 'a \<times> cache \<Rightarrow> 'a \<times> cache) \<Rightarrow> 'a \<times> cache \<Rightarrow> 'a \<times> cache"
where
  "forEachBlockId [] callback s = s"
| "forEachBlockId (i # ids) callback s =
     forEachBlockId ids callback (callback (map_of (blocks (snd s)) i) i s)"

definition forEachBlockInOrder ::
  "(block option \<Rightarrow> int \<Rightarrow> 'a \<times> cache \<Rightarrow> 'a \<times> cache) \<Rightarrow> 'a \<times> cache \<Rightarrow> 'a \<times> cache"
where
  "forEachBlockInOrder callback s = forEachBlockId (getBlockIdsSorted (snd s)) callback s"

definition getBlock :: "int \<Rightarrow> cache \<Rightarrow> block option" where
  "getBlock blockId c = map_of (blocks c) blockId"

definition setBlock :: "int \<Rightarrow> block \<Rightarrow> cache \<Rightarrow> cache" where
  "setBlock i b c =
     emit [LoaderAddBlock (objId b)]
       (c\<lparr>blocks := AList.update i b (blocks c), blockCount := blockCount c + 1\<rparr>)"

definition destroyBlock :: "block \<Rightarrow> cache \<Rightarrow> cache" where
  "destroyBlock b c =
     emit [DestroyBean (objId b), LoaderRemoveBlock (objId b)]
       (c\<lparr>blocks := AList.delete (getBlockNumber b) (blocks c), blockCount := blockCount c - 1\<rparr>)"

definition removeBlockFromCache :: "block option \<Rightarrow> cache \<Rightarrow> cache" where
  "removeBlockFromCache blockToRemove c =
     (case blockToRemove of None \<Rightarrow> c | Some b \<Rightarrow> destroyBlock b c)"

definition checkBlockToLoad :: "cache \<Rightarrow> cache" where
  "checkBlockToLoad c = emit [LoaderCheckBlockToLoad] c"

text \<open>
  The callbacks that only fill an array: \<^verbatim>\<open>if (!cond) return; array.push(block)\<close>.
  The ids they are called with are the keys of the unchanged \<open>blocks\<close>, so the block
  is always there; the \<open>None\<close> case cannot arise and pushes nothing.
\<close>

definition pushIf ::
  "(block \<Rightarrow> int \<Rightarrow> cache \<Rightarrow> bool) \<Rightarrow> block option \<Rightarrow> int \<Rightarrow> block list \<times> cache \<Rightarrow> block list \<times> cache"
where
  "pushIf cond blk i s =
     (case s of (acc, c) \<Rightarrow>
        case blk of
          None \<Rightarrow> (acc, c)
        | Some b \<Rightarrow> if cond b i c then (acc @ [b], c) else (acc, c))"

definition destroyAllBlocksPastVirtualRowCount :: "cache \<Rightarrow> cache" where
  "destroyAllBlocksPastVirtualRowCount c =
     (let blocksToDestroy =
            fst (forEachBlockInOrder
                   (pushIf (\<lambda>b i c'. i * blockSize (cacheParams c') \<ge> virtualRowCount c'))
                   ([], c))
      in fold destroyBlock blocksToDestroy c)"

definition onCacheUpdated :: "cache \<Rightarrow> cache" where
  "onCacheUpdated c =
     (if isActive c
      then emit [DispatchCacheUpdated] (destroyAllBlocksPastVirtualRowCount c)
      else c)"

text \<open>
  \<^verbatim>\<open>typeof lastRow === 'number' && lastRow >= 0\<close>: a last row that was not given (or is
  not a number) is \<open>None\<close>.
\<close>

definition authoritativeLastRow :: "int option \<Rightarrow> int option" where
  "authoritativeLastRow lr = (case lr of None \<Rightarrow> None | Some n \<Rightarrow> if n \<ge> 0 then Some n else None)"

definition checkVirtualRowCount :: "block \<Rightarrow> int option \<Rightarrow> cache \<Rightarrow> cache" where
  "checkVirtualRowCount b lr c =
     (case authoritativeLastRow lr of
        Some n \<Rightarrow> c\<lparr>virtualRowCount := n, maxRowFound := True\<rparr>
      | None \<Rightarrow>
          if \<not> maxRowFound c then
            (let lastRowIndex = (getBlockNumber b + 1) * blockSize (cacheParams c);
                 lastRowIndexPlusOverflow = lastRowIndex + overflowSize (cacheParams c)
             in if virtualRowCount c < lastRowIndexPlusOverflow
                then c\<lparr>virtualRowCount := lastRowIndexPlusOverflow\<rparr>
                else c)
          else c)"

definition onPageLoaded :: "loadEvent \<Rightarrow> cache \<Rightarrow> cache" where
  "onPageLoaded event c =
     (let c1 = checkBlockToLoad (emit [LoaderLoadComplete] c)
      in if \<not> isActive c1 then c1
         else if success event
              then onCacheUpdated (checkVirtualRowCount (page event) (lastRow event) c1)
              else c1)"

definition setVirtualRowCount :: "int \<Rightarrow> bool option \<Rightarrow> cache \<Rightarrow> cache" where
  "setVirtualRowCount rowCount mrf c =
     (let c1 = c\<lparr>virtualRowCount := rowCount\<rparr>;
          c2 = (case mrf of
                  None \<Rightarrow> c1
                | Some v \<Rightarrow> if exists mrf then c1\<lparr>maxRowFound := v\<rparr> else c1);
          c3 = (if \<not> maxRowFound c2
                then (if js_rem (virtualRowCount c2) (blockSize (cacheParams c2)) = Some 0
                      then c2\<lparr>virtualRowCount := virtualRowCount c2 + 1\<rparr>
                      else c2)
                else c2)
      in onCacheUpdated c3)"

text \<open>The callback of \<^verbatim>\<open>purgeCache\<close>: \<^verbatim>\<open>block => this.removeBlockFromCache(block)\<close>.\<close>

definition removeEach :: "block option \<Rightarrow> int \<Rightarrow> unit \<times> cache \<Rightarrow> unit \<times> cache" where
  "removeEach blk i s = (fst s, removeBlockFromCache blk (snd s))"

definition purgeCache :: "cache \<Rightarrow> cache" where
  "purgeCache c =
     (let c1 = snd (forEachBlockInOrder removeEach ((), c));
          c2 = c1\<lparr>maxRowFound := False\<rparr>;
          c3 = (if virtualRowCount c2 = 0
                then c2\<lparr>virtualRowCount := initialRowCount (cacheParams c2)\<rparr>
                else c2)
      in onCacheUpdated c3)"

subsection \<open>Eviction\<close>

text \<open>
  \<^verbatim>\<open>getDisplayIndexEnd() - 1\<close>: a number minus one, \<^verbatim>\<open>null - 1 = -1\<close>, and
  \<^verbatim>\<open>undefined - 1 = NaN\<close> (\<open>None\<close>), which is neither null nor below any row.
\<close>

definition js_minus_one :: "jsnum \<Rightarrow> int option" where
  "js_minus_one v = (case v of JsNum n \<Rightarrow> Some (n - 1) | JsNull \<Rightarrow> Some (- 1) | JsUndefined \<Rightarrow> None)"

definition isBlockCurrentlyDisplayed :: "cache \<Rightarrow> block \<Rightarrow> bool" where
  "isBlockCurrentlyDisplayed c b =
     (let firstViewportRow = getFirstVirtualRenderedRow c;
          lastViewportRow = getLastVirtualRenderedRow c;
          firstRowIndex = getDisplayIndexStart b;
          lastRowIndex = js_minus_one (getDisplayIndexEnd b)
      in case firstRowIndex of
           JsUndefined \<Rightarrow> False
         | JsNull \<Rightarrow> False
         | JsNum f \<Rightarrow>
             (let blockBeforeViewport = f > lastViewportRow;
                  blockAfterViewport =
                    (case lastRowIndex of None \<Rightarrow> False | Some l \<Rightarrow> l < firstViewportRow)
              in \<not> blockBeforeViewport \<and> \<not> blockAfterViewport))"

text \<open>
  The candidate list of \<^verbatim>\<open>purgeBlocksIfNeeded\<close> after its sort: every block but the
  excluded one, most recently accessed first. \<^verbatim>\<open>Array.prototype.sort\<close> is stable, and so
  is \<^const>\<open>sort_key\<close>.
\<close>

definition blocksForPurging :: "block \<Rightarrow> cache \<Rightarrow> block list" where
  "blocksForPurging blockToExclude c =
     sort_key (\<lambda>b. - getLastAccessed b)
       (fst (forEachBlockInOrder
               (pushIf (\<lambda>b i c'. objId b \<noteq> objId blockToExclude)) ([], c)))"

definition maxBlocksProvided :: "cache \<Rightarrow> bool" where
  "maxBlocksProvided c =
     (case maxBlocksInCache (cacheParams c) of None \<Rightarrow> False | Some n \<Rightarrow> n > 0)"

definition purgeBecauseBlockEmpty :: "block \<Rightarrow> nat \<Rightarrow> bool" where
  "purgeBecauseBlockEmpty b index =
     (getState b = STATE_DIRTY \<and> int index \<ge> MAX_EMPTY_BLOCKS_TO_KEEP - 1)"

definition blocksToKeep :: "cache \<Rightarrow> int option" where
  "blocksToKeep c =
     (if maxBlocksProvided c
      then map_option (\<lambda>n. n - 1) (maxBlocksInCache (cacheParams c))
      else None)"

definition purgeBecauseCacheFull :: "cache \<Rightarrow> nat \<Rightarrow> bool" where
  "purgeBecauseCacheFull c index =
     (if maxBlocksProvided c
      then (case blocksToKeep c of None \<Rightarrow> False | Some k \<Rightarrow> int index \<ge> k)
      else False)"

definition purgeStep :: "nat \<times> block \<Rightarrow> cache \<Rightarrow> cache" where
  "purgeStep ib c =
     (case ib of (index, b) \<Rightarrow>
        if purgeBecauseBlockEmpty b index \<or> purgeBecauseCacheFull c index
        then (if isAnyNodeOpen b (virtualRowCount c) then c
              else if isBlockCurrentlyDisplayed c b then c
              else removeBlockFromCache (Some b) c)
        else c)"

definition purgeBlocksIfNeeded :: "block \<Rightarrow> cache \<Rightarrow> cache" where
  "purgeBlocksIfNeeded blockToExclude c =
     fold purgeStep (enumerate 0 (blocksForPurging blockToExclude c)) c"

definition postCreateBlock :: "block \<Rightarrow> cache \<Rightarrow> cache" where
  "postCreateBlock newBlock c =
     checkBlockToLoad
       (purgeBlocksIfNeeded newBlock
          (setBlock (getBlockNumber newBlock) newBlock
             (emit [AddLoadCompleteListener (objId newBlock)] c)))"

subsection \<open>Range selection\<close>

definition rowStep :: "rowNode option \<Rightarrow> rowNode option \<Rightarrow> rowNode \<Rightarrow> rangeWalk \<Rightarrow> rangeWalk" where
  "rowStep firstInRange lastInRange rowNode w =
     (let hitFirstOrLast = (Some rowNode = firstInRange \<or> Some rowNode = lastInRange);
          w1 = (if inActiveRange w \<or> hitFirstOrLast
                then w\<lparr>result := result w @ [rowNode]\<rparr> else w)
      in if hitFirstOrLast then w1\<lparr>inActiveRange := \<not> inActiveRange w1\<rparr> else w1)"

definition blockStep ::
  "rowNode option \<Rightarrow> rowNode option \<Rightarrow> block option \<Rightarrow> int \<Rightarrow> rangeWalk \<times> cache \<Rightarrow> rangeWalk \<times> cache"
where
  "blockStep firstInRange lastInRange blk i s =
     (case s of (w, c) \<Rightarrow>
        if foundGapInSelection w then (w, c)
        else if inActiveRange w \<and> lastBlockId w + 1 \<noteq> i
        then (w\<lparr>foundGapInSelection := True\<rparr>, c)
        else (case blk of
                None \<Rightarrow> (w\<lparr>lastBlockId := i\<rparr>, c)
              | Some b \<Rightarrow>
                  (fold (rowStep firstInRange lastInRange)
                     (forEachNodeShallow b (virtualRowCount c)) (w\<lparr>lastBlockId := i\<rparr>), c)))"

definition getRowNodesInRange :: "rowNode option \<Rightarrow> rowNode option \<Rightarrow> cache \<Rightarrow> rowNode list" where
  "getRowNodesInRange firstInRange lastInRange c =
     (let w0 = \<lparr>result = [], lastBlockId = - 1,
                inActiveRange = missing firstInRange, foundGapInSelection = False\<rparr>;
          w = fst (forEachBlockInOrder (blockStep firstInRange lastInRange) (w0, c));
          invalidRange = (foundGapInSelection w \<or> inActiveRange w)
      in if invalidRange then [] else result w)"

section \<open>Notions used in the statements\<close>

text \<open>
  The registry as \<^verbatim>\<open>postCreateBlock\<close> builds it: \<^verbatim>\<open>setBlock\<close> is only called with the
  block's own number as the key, and the keys of a JavaScript object are unique.
\<close>

definition registry_ok :: "cache \<Rightarrow> bool" where
  "registry_ok c =
     (distinct (map fst (blocks c)) \<and> (\<forall>(k, b) \<in> set (blocks c). getBlockNumber b = k))"

text \<open>
  The eviction guards of \<^verbatim>\<open>purgeBlocksIfNeeded\<close> for one block: a block that is open or
  displayed is exempt.
\<close>

definition exempt :: "cache \<Rightarrow> block \<Rightarrow> bool" where
  "exempt c b = (isAnyNodeOpen b (virtualRowCount c) \<or> isBlockCurrentlyDisplayed c b)"

text \<open>
  A block whose display-index range \<open>[start, end)\<close> is present and meets the rows the
  renderer reports as visible.
\<close>

definition displayRangeOverlapsViewport :: "cache \<Rightarrow> block \<Rightarrow> bool" where
  "displayRangeOverlapsViewport c b =
     (case (getDisplayIndexStart b, getDisplayIndexEnd b) of
        (JsNum s, JsNum e) \<Rightarrow>
          s \<le> getLastVirtualRenderedRow c \<and> getFirstVirtualRenderedRow c \<le> e - 1
      | _ \<Rightarrow> False)"

text \<open>
  The decision of one step of the eviction loop: the block at sorted position \<open>index\<close>
  is removed when one of the two budgets is exceeded and no guard holds.
\<close>

definition purges :: "cache \<Rightarrow> nat \<Rightarrow> block \<Rightarrow> bool" where
  "purges c index b =
     ((purgeBecauseBlockEmpty b index \<or> purgeBecauseCacheFull c index) \<and> \<not> exempt c b)"

text \<open>
  The cache in which the eviction pass of \<^verbatim>\<open>postCreateBlock\<close> runs: the listener is
  registered and the new block is stored under its number.
\<close>

definition inserted :: "block \<Rightarrow> cache \<Rightarrow> cache" where
  "inserted newBlock c =
     setBlock (getBlockNumber newBlock) newBlock
       (emit [AddLoadCompleteListener (objId newBlock)] c)"

text \<open>
  A use of the registry as a sequence of \<^verbatim>\<open>setBlock\<close> and \<^verbatim>\<open>destroyBlock\<close> calls. A
  sequence is admissible when every \<^verbatim>\<open>setBlock\<close> stores under a number that is not
  registered at that moment and every \<^verbatim>\<open>destroyBlock\<close> is given a block whose number is
  registered at that moment.
\<close>

datatype registryOp = SetBlock int block | DestroyBlock block

fun applyOp :: "registryOp \<Rightarrow> cache \<Rightarrow> cache" where
  "applyOp (SetBlock i b) c = setBlock i b c"
| "applyOp (DestroyBlock b) c = destroyBlock b c"

fun admissible :: "registryOp list \<Rightarrow> cache \<Rightarrow> bool" where
  "admissible [] c = True"
| "admissible (SetBlock i b # ops) c =
     (i \<notin> fst ` set (blocks c) \<and> admissible ops (setBlock i b c))"
| "admissible (DestroyBlock b # ops) c =
     (getBlockNumber b \<in> fst ` set (blocks c) \<and> admissible ops (destroyBlock b c))"

text \<open>Block numbers that go up by one at each step.\<close>

fun contiguous :: "int list \<Rightarrow> bool" where
  "contiguous [] = True"
| "contiguous [i] = True"
| "contiguous (i # j # ids) = (j = i + 1 \<and> contiguous (j # ids))"

text \<open>
  What \<^verbatim>\<open>getRowNodesInRange\<close> walks over: the block ids in ascending order, each with
  the row nodes its block hands out; and the step of the walk on such a pair.
\<close>

definition blockRows :: "cache \<Rightarrow> (int \<times> rowNode list) list" where
  "blockRows c =
     List.map_filter
       (\<lambda>i. map_option (\<lambda>b. (i, forEachNodeShallow b (virtualRowCount c))) (map_of (blocks c) i))
       (getBlockIdsSorted c)"

definition rowsStep :: "rowNode option \<Rightarrow> rowNode option \<Rightarrow> int \<times> rowNode list \<Rightarrow> rangeWalk \<Rightarrow> rangeWalk" where
  "rowsStep firstInRange lastInRange ir w =
     (if foundGapInSelection w then w
      else if inActiveRange w \<and> lastBlockId w + 1 \<noteq> fst ir
      then w\<lparr>foundGapInSelection := True\<rparr>
      else fold (rowStep firstInRange lastInRange) (snd ir) (w\<lparr>lastBlockId := fst ir\<rparr>))"

section \<open>Example blocks and caches\<close>

text \<open>
  Concrete inputs for the closed theorems below: a closed, collapsed-parent block with the
  given number, access stamp, state and rows, and the cache obtained by creating blocks
  one after the other in a fresh cache whose renderer shows row 0 only.
\<close>

definition exampleBlock :: "int \<Rightarrow> int \<Rightarrow> block_state \<Rightarrow> rowNode list \<Rightarrow> block" where
  "exampleBlock n accessed st rows =
     \<lparr>objId = nat n, getBlockNumber = n, getLastAccessed = accessed, getState = st,
      isAnyNodeOpen = (\<lambda>_. False), getDisplayIndexStart = JsNull, getDisplayIndexEnd = JsNull,
      forEachNodeShallow = (\<lambda>_. rows)\<rparr>"

definition exampleOpenBlock :: "int \<Rightarrow> int \<Rightarrow> block" where
  "exampleOpenBlock n accessed = (exampleBlock n accessed STATE_DIRTY [])\<lparr>isAnyNodeOpen := (\<lambda>_. True)\<rparr>"

definition exampleDisplayedBlock :: "int \<Rightarrow> int \<Rightarrow> int \<Rightarrow> int \<Rightarrow> block" where
  "exampleDisplayedBlock n accessed s e =
     (exampleBlock n accessed STATE_DIRTY [])
       \<lparr>getDisplayIndexStart := JsNum s, getDisplayIndexEnd := JsNum e\<rparr>"

definition exampleParams :: "int \<Rightarrow> int \<Rightarrow> int \<Rightarrow> int option \<Rightarrow> rowNodeCacheParams" where
  "exampleParams init bs ov mx =
     \<lparr>initialRowCount = init, blockSize = bs, overflowSize = ov, maxBlocksInCache = mx\<rparr>"

definition exampleCache :: "rowNodeCacheParams \<Rightarrow> block list \<Rightarrow> cache" where
  "exampleCache p bs = fold postCreateBlock bs (newCache p 0 0)"

text \<open>
  Four loaded blocks 0, 1, 2 and 4 of two rows each (block 3 is missing), rows 10 to 19.
\<close>

definition exampleRangeCache :: cache where
  "exampleRangeCache =
     exampleCache (exampleParams 1 10 5 None)
       [exampleBlock 0 0 STATE_LOADED [10, 11], exampleBlock 1 1 STATE_LOADED [12, 13],
        exampleBlock 2 2 STATE_LOADED [14, 15], exampleBlock 4 3 STATE_LOADED [18, 19]]"

text \<open>A second block object with the number 0.\<close>

definition exampleReplacement :: block where
  "exampleReplacement = (exampleBlock 0 1 STATE_LOADED [])\<lparr>objId := 7\<rparr>"

section \<open>Basic facts\<close>

lemmas example_defs =
  exampleCache_def exampleBlock_def exampleOpenBlock_def exampleDisplayedBlock_def
  exampleParams_def newCache_def postCreateBlock_def
  setBlock_def purgeBlocksIfNeeded_def blocksForPurging_def forEachBlockInOrder_def
  getBlockIdsSorted_def pushIf_def purgeStep_def purgeBecauseBlockEmpty_def
  purgeBecauseCacheFull_def blocksToKeep_def maxBlocksProvided_def MAX_EMPTY_BLOCKS_TO_KEEP_def
  removeBlockFromCache_def destroyBlock_def isBlockCurrentlyDisplayed_def js_minus_one_def
  checkBlockToLoad_def emit_def enumerate_eq_zip

lemmas op_defs =
  onPageLoaded_def checkVirtualRowCount_def authoritativeLastRow_def onCacheUpdated_def
  destroyAllBlocksPastVirtualRowCount_def isActive_def purgeCache_def removeEach_def
  setVirtualRowCount_def exists_def js_rem_def

lemma emit_simps [simp]:
  "virtualRowCount (emit es c) = virtualRowCount c"
  "maxRowFound (emit es c) = maxRowFound c"
  "cacheParams (emit es c) = cacheParams c"
  "active (emit es c) = active c"
  "blocks (emit es c) = blocks c"
  "blockCount (emit es c) = blockCount c"
  "getFirstVirtualRenderedRow (emit es c) = getFirstVirtualRenderedRow c"
  "getLastVirtualRenderedRow (emit es c) = getLastVirtualRenderedRow c"
  "effects (emit es c) = effects c @ es"
  by (simp_all add: emit_def)

lemma destroyBlock_simps [simp]:
  "virtualRowCount (destroyBlock b c) = virtualRowCount c"
  "maxRowFound (destroyBlock b c) = maxRowFound c"
  "cacheParams (destroyBlock b c) = cacheParams c"
  "active (destroyBlock b c) = active c"
  "blocks (destroyBlock b c) = AList.delete (getBlockNumber b) (blocks c)"
  "blockCount (destroyBlock b c) = blockCount c - 1"
  "getFirstVirtualRenderedRow (destroyBlock b c) = getFirstVirtualRenderedRow c"
  "getLastVirtualRenderedRow (destroyBlock b c) = getLastVirtualRenderedRow c"
  "effects (destroyBlock b c) = effects c @ [DestroyBean (objId b), LoaderRemoveBlock (objId b)]"
  by (simp_all add: destroyBlock_def)

lemma fold_destroyBlock_frame [simp]:
  "virtualRowCount (fold destroyBlock bs c) = virtualRowCount c"
  "maxRowFound (fold destroyBlock bs c) = maxRowFound c"
  "cacheParams (fold destroyBlock bs c) = cacheParams c"
  "active (fold destroyBlock bs c) = active c"
  "getFirstVirtualRenderedRow (fold destroyBlock bs c) = getFirstVirtualRenderedRow c"
  "getLastVirtualRenderedRow (fold destroyBlock bs c) = getLastVirtualRenderedRow c"
  by (induction bs arbitrary: c; simp)+

lemma fold_destroyBlock_effects:
  "effects (fold destroyBlock bs c) =
     effects c @ concat (map (\<lambda>b. [DestroyBean (objId b), LoaderRemoveBlock (objId b)]) bs)"
  by (induction bs arbitrary: c) simp_all

lemma onCacheUpdated_frame [simp]:
  "virtualRowCount (onCacheUpdated c) = virtualRowCount c"
  "maxRowFound (onCacheUpdated c) = maxRowFound c"
  "cacheParams (onCacheUpdated c) = cacheParams c"
  "active (onCacheUpdated c) = active c"
  "getFirstVirtualRenderedRow (onCacheUpdated c) = getFirstVirtualRenderedRow c"
  "getLastVirtualRenderedRow (onCacheUpdated c) = getLastVirtualRenderedRow c"
  by (simp_all add: onCacheUpdated_def destroyAllBlocksPastVirtualRowCount_def Let_def)

lemma onCacheUpdated_no_loadComplete:
  "count_list (effects (onCacheUpdated c)) LoaderLoadComplete = count_list (effects c) LoaderLoadComplete"
  by (simp add: onCacheUpdated_def destroyAllBlocksPastVirtualRowCount_def Let_def
      fold_destroyBlock_effects count_list_append count_list_concat)

lemma removeAll_frame:
  "virtualRowCount (snd (forEachBlockId ids removeEach (u0, c))) = virtualRowCount c"
  "maxRowFound (snd (forEachBlockId ids removeEach (u0, c))) = maxRowFound c"
  "cacheParams (snd (forEachBlockId ids removeEach (u0, c))) = cacheParams c"
  by (induction ids arbitrary: c u0; simp add: removeEach_def removeBlockFromCache_def split: option.splits)+

lemma checkVirtualRowCount_frame [simp]:
  "cacheParams (checkVirtualRowCount b lr c) = cacheParams c"
  "active (checkVirtualRowCount b lr c) = active c"
  "blocks (checkVirtualRowCount b lr c) = blocks c"
  "blockCount (checkVirtualRowCount b lr c) = blockCount c"
  "getFirstVirtualRenderedRow (checkVirtualRowCount b lr c) = getFirstVirtualRenderedRow c"
  "getLastVirtualRenderedRow (checkVirtualRowCount b lr c) = getLastVirtualRenderedRow c"
  "effects (checkVirtualRowCount b lr c) = effects c"
  by (simp_all add: checkVirtualRowCount_def Let_def split: option.splits)

lemma onPageLoaded_loadComplete_once:
  "count_list (effects (onPageLoaded event c)) LoaderLoadComplete =
     count_list (effects c) LoaderLoadComplete + 1"
  by (simp add: onPageLoaded_def checkBlockToLoad_def Let_def onCacheUpdated_no_loadComplete)

lemma js_rem_zero_iff: "js_rem a b = Some 0 \<longleftrightarrow> b \<noteq> 0 \<and> b dvd a"
proof (cases "b = 0")
  case True
  then show ?thesis by (simp add: js_rem_def)
next
  case False
  have "sgn a * (\<bar>a\<bar> mod \<bar>b\<bar>) = 0 \<longleftrightarrow> \<bar>a\<bar> mod \<bar>b\<bar> = 0"
    by (cases "a = 0") (simp_all add: sgn_eq_0_iff)
  also have "\<dots> \<longleftrightarrow> \<bar>b\<bar> dvd \<bar>a\<bar>"
    by (simp add: dvd_eq_mod_eq_0)
  also have "\<dots> \<longleftrightarrow> b dvd a"
    by simp
  finally show ?thesis using False by (simp add: js_rem_def)
qed

lemma setVirtualRowCount_count:
  "virtualRowCount (setVirtualRowCount rowCount mrf c) =
     (if \<not> maxRowFound (setVirtualRowCount rowCount mrf c)
         \<and> js_rem rowCount (blockSize (cacheParams c)) = Some 0
      then rowCount + 1 else rowCount)"
  "maxRowFound (setVirtualRowCount rowCount mrf c) = (case mrf of None \<Rightarrow> maxRowFound c | Some v \<Rightarrow> v)"
  by (simp_all add: setVirtualRowCount_def Let_def exists_def split: option.splits)

section \<open>The virtual row count\<close>

text \<open>
  Claim C3. On a load completion whose last row is absent or negative, while
  \<open>maxRowFound\<close> is false, \<open>checkVirtualRowCount\<close> sets the count to the maximum of
  the old count and \<open>(blockNumber + 1) * blockSize + overflowSize\<close>; this path never
  decreases the count nor touches the flag, and once \<open>maxRowFound\<close> is true it changes
  nothing. The same lower bound holds for the whole \<open>onPageLoaded\<close> handler.
\<close>

theorem checkVirtualRowCount_heuristic:
  assumes "\<forall>n. lr = Some n \<longrightarrow> n < 0"
  shows "(\<not> maxRowFound c \<longrightarrow>
            virtualRowCount (checkVirtualRowCount b lr c) =
              max (virtualRowCount c)
                  ((getBlockNumber b + 1) * blockSize (cacheParams c) + overflowSize (cacheParams c)))
       \<and> virtualRowCount c \<le> virtualRowCount (checkVirtualRowCount b lr c)
       \<and> maxRowFound (checkVirtualRowCount b lr c) = maxRowFound c
       \<and> (maxRowFound c \<longrightarrow> checkVirtualRowCount b lr c = c)
       \<and> virtualRowCount c \<le> virtualRowCount (onPageLoaded \<lparr>page = b, lastRow = lr, success = ok\<rparr> c)"
proof -
  from assms have "authoritativeLastRow lr = None"
    by (cases lr) (simp_all add: authoritativeLastRow_def)
  then show ?thesis
    by (simp add: checkVirtualRowCount_def onPageLoaded_def checkBlockToLoad_def Let_def)
qed

theorem checkVirtualRowCount_heuristic_witness:
  "virtualRowCount
        (checkVirtualRowCount (exampleBlock 0 0 STATE_LOADED []) None
           (newCache (exampleParams 1 10 5 None) 0 0)) = 15
   \<and> virtualRowCount
        (checkVirtualRowCount (exampleBlock 0 0 STATE_LOADED []) None
           (newCache (exampleParams 40 10 5 None) 0 0)) = 40"
  using checkVirtualRowCount_heuristic
          [of None "newCache (exampleParams 1 10 5 None) 0 0" "exampleBlock 0 0 STATE_LOADED []" True]
        checkVirtualRowCount_heuristic
          [of None "newCache (exampleParams 40 10 5 None) 0 0" "exampleBlock 0 0 STATE_LOADED []" True]
  by (simp add: example_defs)

text \<open>
  Claim C10. \<open>purgeCache\<close> always resets \<open>maxRowFound\<close> to false; it leaves a
  non-zero \<open>virtualRowCount\<close> as it is and replaces a count of exactly 0 by the
  configured initial row count, with no boundary adjustment of the result.
\<close>

theorem purgeCache_count:
  "maxRowFound (purgeCache c) = False
   \<and> virtualRowCount (purgeCache c) =
       (if virtualRowCount c = 0 then initialRowCount (cacheParams c) else virtualRowCount c)"
  by (simp add: purgeCache_def Let_def forEachBlockInOrder_def removeAll_frame)

text \<open>
  Claim C6. In an inactive cache a cache-updated pass changes nothing (no block is
  destroyed, no event dispatched), and a load-completion notification changes nothing
  but the calls to the loader: \<open>loadComplete\<close> and \<open>checkBlockToLoad\<close> are made,
  \<open>loadComplete\<close> exactly once, as it is in an active cache.
\<close>

theorem inactive_cache_ignores:
  assumes "\<not> active c"
  shows "onCacheUpdated c = c
       \<and> onPageLoaded event c = emit [LoaderLoadComplete, LoaderCheckBlockToLoad] c
       \<and> count_list (effects (onPageLoaded event c)) LoaderLoadComplete =
           count_list (effects c) LoaderLoadComplete + 1
       \<and> count_list (effects (onPageLoaded event (c\<lparr>active := True\<rparr>))) LoaderLoadComplete =
           count_list (effects (c\<lparr>active := True\<rparr>)) LoaderLoadComplete + 1"
proof -
  have "onCacheUpdated c = c"
    using assms by (simp add: onCacheUpdated_def isActive_def)
  moreover have "onPageLoaded event c = emit [LoaderLoadComplete, LoaderCheckBlockToLoad] c"
    using assms by (simp add: onPageLoaded_def checkBlockToLoad_def Let_def isActive_def emit_def)
  ultimately show ?thesis
    using onPageLoaded_loadComplete_once [of event c]
      onPageLoaded_loadComplete_once [of event "c\<lparr>active := True\<rparr>"]
    by simp
qed

theorem inactive_cache_ignores_witness:
  "\<not> active ((exampleCache (exampleParams 1 10 5 None) [exampleBlock 7 0 STATE_LOADING []])\<lparr>active := False\<rparr>)
   \<and> blocks (onCacheUpdated
        ((exampleCache (exampleParams 1 10 5 None) [exampleBlock 7 0 STATE_LOADING []])\<lparr>active := False\<rparr>))
       = [(7, exampleBlock 7 0 STATE_LOADING [])]
   \<and> blocks (onPageLoaded \<lparr>page = exampleBlock 7 0 STATE_LOADING [], lastRow = Some 3, success = True\<rparr>
        ((exampleCache (exampleParams 1 10 5 None) [exampleBlock 7 0 STATE_LOADING []])\<lparr>active := False\<rparr>))
       = [(7, exampleBlock 7 0 STATE_LOADING [])]
   \<and> virtualRowCount (onPageLoaded \<lparr>page = exampleBlock 7 0 STATE_LOADING [], lastRow = Some 3, success = True\<rparr>
        ((exampleCache (exampleParams 1 10 5 None) [exampleBlock 7 0 STATE_LOADING []])\<lparr>active := False\<rparr>))
       = 1"
  using inactive_cache_ignores
          [of "(exampleCache (exampleParams 1 10 5 None) [exampleBlock 7 0 STATE_LOADING []])\<lparr>active := False\<rparr>"
              "\<lparr>page = exampleBlock 7 0 STATE_LOADING [], lastRow = Some 3, success = True\<rparr>"]
  by (simp add: example_defs)

text \<open>
  Claim C1, as stated, fails: the heuristic growth on load completion and the reset of
  \<open>purgeCache\<close> apply no boundary adjustment. With block size 10 and overflow size 10, the
  load of block 0 without a last row leaves the count at 20 with \<open>maxRowFound\<close> false; and
  after an authoritative last row of 20, \<open>purgeCache\<close> clears the flag and keeps 20.
\<close>

theorem boundary_counterexample:
  "\<not> maxRowFound (onPageLoaded \<lparr>page = exampleBlock 0 0 STATE_LOADED [], lastRow = None, success = True\<rparr>
        (exampleCache (exampleParams 1 10 10 None) [exampleBlock 0 0 STATE_LOADED []]))
   \<and> js_rem (virtualRowCount (onPageLoaded \<lparr>page = exampleBlock 0 0 STATE_LOADED [], lastRow = None, success = True\<rparr>
        (exampleCache (exampleParams 1 10 10 None) [exampleBlock 0 0 STATE_LOADED []]))) 10 = Some 0
   \<and> \<not> maxRowFound (purgeCache (onPageLoaded \<lparr>page = exampleBlock 0 0 STATE_LOADED [], lastRow = Some 20, success = True\<rparr>
        (exampleCache (exampleParams 1 10 5 None) [exampleBlock 0 0 STATE_LOADED []])))
   \<and> js_rem (virtualRowCount (purgeCache (onPageLoaded \<lparr>page = exampleBlock 0 0 STATE_LOADED [], lastRow = Some 20, success = True\<rparr>
        (exampleCache (exampleParams 1 10 5 None) [exampleBlock 0 0 STATE_LOADED []])))) 10 = Some 0"
  by (simp add: example_defs op_defs)

text \<open>
  Claim C1, amended. After \<open>setVirtualRowCount\<close>, if \<open>maxRowFound\<close> is false and the
  block size is neither 1 nor -1, the count is not an exact multiple of the block size.
  The heuristic growth of \<open>checkVirtualRowCount\<close> keeps the flag false and keeps the count
  off the multiples of the block size when it was off them before and the overflow size
  is not a multiple of the block size.
\<close>

theorem setVirtualRowCount_off_boundary:
  "(\<bar>blockSize (cacheParams c)\<bar> \<noteq> 1 \<and> \<not> maxRowFound (setVirtualRowCount rowCount mrf c)
      \<longrightarrow> js_rem (virtualRowCount (setVirtualRowCount rowCount mrf c)) (blockSize (cacheParams c)) \<noteq> Some 0)
   \<and> (\<not> maxRowFound c' \<and> (\<forall>n. lr = Some n \<longrightarrow> n < 0)
        \<and> js_rem (virtualRowCount c') (blockSize (cacheParams c')) \<noteq> Some 0
        \<and> js_rem (overflowSize (cacheParams c')) (blockSize (cacheParams c')) \<noteq> Some 0
      \<longrightarrow> \<not> maxRowFound (checkVirtualRowCount b lr c')
          \<and> js_rem (virtualRowCount (checkVirtualRowCount b lr c')) (blockSize (cacheParams c')) \<noteq> Some 0)"
proof (intro conjI impI)
  assume a: "\<bar>blockSize (cacheParams c)\<bar> \<noteq> 1 \<and> \<not> maxRowFound (setVirtualRowCount rowCount mrf c)"
  let ?bs = "blockSize (cacheParams c)"
  show "js_rem (virtualRowCount (setVirtualRowCount rowCount mrf c)) ?bs \<noteq> Some 0"
  proof (cases "js_rem rowCount ?bs = Some 0")
    case True
    then have d: "?bs dvd rowCount" by (simp add: js_rem_zero_iff)
    have "\<not> ?bs dvd rowCount + 1"
    proof
      assume "?bs dvd rowCount + 1"
      with d have "?bs dvd (rowCount + 1) - rowCount" by (simp only: dvd_diff)
      then have "?bs dvd 1" by simp
      then have "\<bar>?bs\<bar> = 1" by simp
      with a show False by simp
    qed
    with a True show ?thesis
      by (simp add: setVirtualRowCount_count js_rem_zero_iff)
  next
    case False
    with a show ?thesis by (simp add: setVirtualRowCount_count)
  qed
next
  assume a: "\<not> maxRowFound c' \<and> (\<forall>n. lr = Some n \<longrightarrow> n < 0)
        \<and> js_rem (virtualRowCount c') (blockSize (cacheParams c')) \<noteq> Some 0
        \<and> js_rem (overflowSize (cacheParams c')) (blockSize (cacheParams c')) \<noteq> Some 0"
  then have n: "authoritativeLastRow lr = None"
    by (cases lr) (simp_all add: authoritativeLastRow_def)
  from a n show "\<not> maxRowFound (checkVirtualRowCount b lr c')"
    by (simp add: checkVirtualRowCount_def Let_def)
  from a n show "js_rem (virtualRowCount (checkVirtualRowCount b lr c')) (blockSize (cacheParams c')) \<noteq> Some 0"
    by (auto simp add: checkVirtualRowCount_def Let_def js_rem_zero_iff)
qed

theorem setVirtualRowCount_off_boundary_witness:
  "\<bar>blockSize (cacheParams (newCache (exampleParams 1 10 5 None) 0 0))\<bar> \<noteq> 1
   \<and> \<not> maxRowFound (setVirtualRowCount 20 None (newCache (exampleParams 1 10 5 None) 0 0))
   \<and> virtualRowCount (setVirtualRowCount 20 None (newCache (exampleParams 1 10 5 None) 0 0)) = 21
   \<and> js_rem 21 10 \<noteq> Some 0
   \<and> js_rem (virtualRowCount (newCache (exampleParams 1 10 5 None) 0 0)) 10 \<noteq> Some 0
   \<and> js_rem (overflowSize (exampleParams 1 10 5 None)) 10 \<noteq> Some 0
   \<and> virtualRowCount
        (checkVirtualRowCount (exampleBlock 0 0 STATE_LOADED []) None
           (newCache (exampleParams 1 10 5 None) 0 0)) = 15"
  using setVirtualRowCount_off_boundary
          [of "newCache (exampleParams 1 10 5 None) 0 0" 20 None
              "newCache (exampleParams 1 10 5 None) 0 0" None "exampleBlock 0 0 STATE_LOADED []"]
  by (simp add: example_defs op_defs)

section \<open>Range selection from the top\<close>

lemma blockStep_gap_stays:
  "foundGapInSelection w \<Longrightarrow> forEachBlockId ids (blockStep f l) (w, c) = (w, c)"
  by (induction ids) (simp_all add: blockStep_def)

lemma hd_sort_Min:
  fixes xs :: "int list"
  assumes "xs \<noteq> []"
  shows "hd (sort xs) = Min (set xs)"
proof -
  obtain y ys where ys: "sort xs = y # ys"
    using assms by (cases "sort xs") (auto dest: arg_cong [where f = length])
  have "sorted (y # ys)" using ys sorted_sort [of xs] by simp
  then have "\<forall>z \<in> set (y # ys). y \<le> z" by auto
  moreover have "set (y # ys) = set xs" using ys set_sort [of "\<lambda>x. x" xs] by simp
  ultimately have "Min (set xs) = y"
    by (intro Min_eqI) auto
  with ys show ?thesis by simp
qed

text \<open>
  Claim C9. With \<open>firstInRange\<close> absent the walk starts inside the active range with the
  last block id at -1, so when the smallest registered block number is not 0 the first
  block already counts as a gap and the result is empty, whatever \<open>lastInRange\<close> is and
  however the registered blocks follow each other.
\<close>

theorem range_from_top_needs_block_zero:
  assumes "blocks c \<noteq> []" and "Min (fst ` set (blocks c)) \<noteq> 0"
  shows "getRowNodesInRange None lastInRange c = []"
proof -
  let ?ids = "getBlockIdsSorted c"
  have ne: "map fst (blocks c) \<noteq> []" using assms(1) by simp
  then have "?ids \<noteq> []"
    unfolding getBlockIdsSorted_def by (auto dest: arg_cong [where f = length])
  then obtain i ids where ids: "?ids = i # ids" by (cases ?ids) auto
  have "i = hd (sort (map fst (blocks c)))" using ids by (simp add: getBlockIdsSorted_def)
  also have "\<dots> = Min (fst ` set (blocks c))" using hd_sort_Min [OF ne] by simp
  finally have "i \<noteq> 0" using assms(2) by simp
  then show ?thesis
    by (simp add: getRowNodesInRange_def forEachBlockInOrder_def ids blockStep_gap_stays
        missing_def exists_def Let_def blockStep_def [of None lastInRange _ i])
qed

theorem range_from_top_needs_block_zero_witness:
  "blocks (exampleCache (exampleParams 1 10 5 None)
            [exampleBlock 1 0 STATE_LOADED [10, 11], exampleBlock 2 1 STATE_LOADED [12, 13]]) \<noteq> []
   \<and> Min (fst ` set (blocks (exampleCache (exampleParams 1 10 5 None)
            [exampleBlock 1 0 STATE_LOADED [10, 11], exampleBlock 2 1 STATE_LOADED [12, 13]]))) = 1
   \<and> getRowNodesInRange None (Some 12) (exampleCache (exampleParams 1 10 5 None)
            [exampleBlock 1 0 STATE_LOADED [10, 11], exampleBlock 2 1 STATE_LOADED [12, 13]]) = []
   \<and> getRowNodesInRange (Some 10) (Some 12) (exampleCache (exampleParams 1 10 5 None)
            [exampleBlock 1 0 STATE_LOADED [10, 11], exampleBlock 2 1 STATE_LOADED [12, 13]]) = [10, 11, 12]"
  using range_from_top_needs_block_zero
          [of "exampleCache (exampleParams 1 10 5 None)
            [exampleBlock 1 0 STATE_LOADED [10, 11], exampleBlock 2 1 STATE_LOADED [12, 13]]" "Some 12"]
  by (simp add: example_defs getRowNodesInRange_def blockStep_def rowStep_def missing_def exists_def)

section \<open>The registry and the update pass\<close>

lemma forEachBlockId_pushIf:
  "forEachBlockId ids (pushIf P) (acc, c) =
     (acc @ List.map_filter
        (\<lambda>i. case map_of (blocks c) i of None \<Rightarrow> None | Some b \<Rightarrow> if P b i c then Some b else None)
        ids, c)"
  by (induction ids arbitrary: acc) (auto simp: pushIf_def map_filter_simps split: option.splits)

lemma set_map_filter_eq:
  "set (List.map_filter f xs) = {y. \<exists>x \<in> set xs. f x = Some y}"
  by (induction xs) (auto split: option.splits)

lemma set_pushIf:
  assumes "distinct (map fst (blocks c))"
  shows "set (fst (forEachBlockInOrder (pushIf P) ([], c))) =
           {b. \<exists>i. (i, b) \<in> set (blocks c) \<and> P b i c}"
proof -
  have lookup: "map_of (blocks c) i = Some b \<longleftrightarrow> (i, b) \<in> set (blocks c)" for i b
    using assms by simp
  have "set (fst (forEachBlockInOrder (pushIf P) ([], c))) =
          {b. \<exists>i \<in> fst ` set (blocks c). map_of (blocks c) i = Some b \<and> P b i c}"
    by (auto simp: forEachBlockInOrder_def forEachBlockId_pushIf getBlockIdsSorted_def
        set_map_filter_eq split: option.splits if_splits)
  also have "\<dots> = {b. \<exists>i. (i, b) \<in> set (blocks c) \<and> P b i c}"
    unfolding lookup by force
  finally show ?thesis .
qed

lemma fold_destroyBlock_blocks:
  "blocks (fold destroyBlock bs c) =
     filter (\<lambda>(k, _). k \<notin> getBlockNumber ` set bs) (blocks c)"
  by (induction bs arbitrary: c) (auto simp: AList.delete_eq intro: filter_cong)

lemma registry_ok_key: "registry_ok c \<Longrightarrow> (k, b) \<in> set (blocks c) \<Longrightarrow> getBlockNumber b = k"
  by (auto simp: registry_ok_def)

lemma registry_ok_unique:
  "registry_ok c \<Longrightarrow> (k, b) \<in> set (blocks c) \<Longrightarrow> (k, b') \<in> set (blocks c) \<Longrightarrow> b' = b"
  by (auto simp: registry_ok_def dest: eq_key_imp_eq_value)

lemma onCacheUpdated_blocks:
  assumes "registry_ok c" and "active c"
  shows "blocks (onCacheUpdated c) =
           filter (\<lambda>(k, b). getBlockNumber b * blockSize (cacheParams c) < virtualRowCount c) (blocks c)"
proof -
  let ?S = "{b. \<exists>i. (i, b) \<in> set (blocks c) \<and> virtualRowCount c \<le> i * blockSize (cacheParams c)}"
  have d: "distinct (map fst (blocks c))" using assms(1) by (simp add: registry_ok_def)
  have "blocks (onCacheUpdated c) = filter (\<lambda>(k, _). k \<notin> getBlockNumber ` ?S) (blocks c)"
    using assms(2)
    by (simp add: onCacheUpdated_def isActive_def destroyAllBlocksPastVirtualRowCount_def Let_def
        fold_destroyBlock_blocks set_pushIf [OF d])
  also have "\<dots> = filter (\<lambda>(k, b). getBlockNumber b * blockSize (cacheParams c) < virtualRowCount c) (blocks c)"
  proof (rule filter_cong [OF refl])
    fix e assume e: "e \<in> set (blocks c)"
    obtain k b where kb: "e = (k, b)" by (cases e)
    have n: "getBlockNumber b = k" using registry_ok_key [OF assms(1)] e kb by simp
    have "k \<in> getBlockNumber ` ?S \<longleftrightarrow> virtualRowCount c \<le> k * blockSize (cacheParams c)"
    proof
      assume "k \<in> getBlockNumber ` ?S"
      then obtain b' i where "(i, b') \<in> set (blocks c)"
        "virtualRowCount c \<le> i * blockSize (cacheParams c)" "k = getBlockNumber b'" by auto
      moreover from this have "getBlockNumber b' = i" using registry_ok_key [OF assms(1)] by simp
      ultimately show "virtualRowCount c \<le> k * blockSize (cacheParams c)" by simp
    next
      assume "virtualRowCount c \<le> k * blockSize (cacheParams c)"
      then have "b \<in> ?S" using e kb by auto
      then show "k \<in> getBlockNumber ` ?S" using n by (auto intro: rev_image_eqI)
    qed
    then show "(case e of (k, _) \<Rightarrow> k \<notin> getBlockNumber ` ?S) =
        (case e of (k, b) \<Rightarrow> getBlockNumber b * blockSize (cacheParams c) < virtualRowCount c)"
      using kb n by auto
  qed
  finally show ?thesis .
qed

lemma onCacheUpdated_destroys:
  assumes "registry_ok c" and "active c" and "(k, b) \<in> set (blocks c)"
    and "virtualRowCount c \<le> getBlockNumber b * blockSize (cacheParams c)"
  shows "DestroyBean (objId b) \<in> set (effects (onCacheUpdated c))"
proof -
  have d: "distinct (map fst (blocks c))" using assms(1) by (simp add: registry_ok_def)
  have "getBlockNumber b = k" using registry_ok_key [OF assms(1) assms(3)] .
  then have "b \<in> set (fst (forEachBlockInOrder
      (pushIf (\<lambda>b i c'. i * blockSize (cacheParams c') \<ge> virtualRowCount c')) ([], c)))"
    using assms(3,4) by (auto simp: set_pushIf [OF d])
  then show ?thesis using assms(2)
    by (auto simp: onCacheUpdated_def isActive_def destroyAllBlocksPastVirtualRowCount_def Let_def
        fold_destroyBlock_effects)
qed

lemma onCacheUpdated_dispatches:
  "active c \<Longrightarrow> \<exists>es. effects (onCacheUpdated c) = effects c @ es @ [DispatchCacheUpdated]"
  by (simp add: onCacheUpdated_def isActive_def destroyAllBlocksPastVirtualRowCount_def Let_def
        fold_destroyBlock_effects)

lemma setVirtualRowCount_as_update:
  obtains c3 where "setVirtualRowCount rc mrf c = onCacheUpdated c3"
    and "blocks c3 = blocks c" and "active c3 = active c" and "cacheParams c3 = cacheParams c"
proof -
  let ?c2 = "case mrf of None \<Rightarrow> c\<lparr>virtualRowCount := rc\<rparr>
              | Some v \<Rightarrow> c\<lparr>virtualRowCount := rc, maxRowFound := v\<rparr>"
  let ?c3 = "if \<not> maxRowFound ?c2 \<and> js_rem rc (blockSize (cacheParams c)) = Some 0
             then ?c2\<lparr>virtualRowCount := rc + 1\<rparr> else ?c2"
  have "setVirtualRowCount rc mrf c = onCacheUpdated ?c3"
    by (simp add: setVirtualRowCount_def Let_def exists_def split: option.splits)
  moreover have "blocks ?c3 = blocks c" "active ?c3 = active c" "cacheParams ?c3 = cacheParams c"
    by (simp_all split: option.splits)
  ultimately show ?thesis using that by blast
qed

text \<open>
  Claim C8. In an active cache, \<open>setVirtualRowCount\<close> and a successful load completion
  (which, with an authoritative last row \<open>n\<close>, sets the count to \<open>n\<close>) end with an update
  pass that removes from the registry exactly the blocks whose start row
  \<open>blockNumber * blockSize\<close> is at or past the new count, destroying each of them; the
  blocks that start below the new count stay.
\<close>

theorem count_change_destroys_blocks_past_end:
  assumes "registry_ok c" and "active c"
  shows "blocks (setVirtualRowCount rowCount mrf c) =
           filter (\<lambda>(k, b). getBlockNumber b * blockSize (cacheParams c)
                              < virtualRowCount (setVirtualRowCount rowCount mrf c)) (blocks c)
       \<and> (\<forall>(k, b) \<in> set (blocks c).
             virtualRowCount (setVirtualRowCount rowCount mrf c)
               \<le> getBlockNumber b * blockSize (cacheParams c)
             \<longrightarrow> DestroyBean (objId b) \<in> set (effects (setVirtualRowCount rowCount mrf c)))
       \<and> blocks (onPageLoaded \<lparr>page = pg, lastRow = lr, success = True\<rparr> c) =
           filter (\<lambda>(k, b). getBlockNumber b * blockSize (cacheParams c)
                              < virtualRowCount (onPageLoaded \<lparr>page = pg, lastRow = lr, success = True\<rparr> c))
             (blocks c)
       \<and> (\<forall>(k, b) \<in> set (blocks c).
             virtualRowCount (onPageLoaded \<lparr>page = pg, lastRow = lr, success = True\<rparr> c)
               \<le> getBlockNumber b * blockSize (cacheParams c)
             \<longrightarrow> DestroyBean (objId b) \<in>
                   set (effects (onPageLoaded \<lparr>page = pg, lastRow = lr, success = True\<rparr> c)))
       \<and> (0 \<le> n \<longrightarrow>
             virtualRowCount (onPageLoaded \<lparr>page = pg, lastRow = Some n, success = True\<rparr> c) = n
           \<and> maxRowFound (onPageLoaded \<lparr>page = pg, lastRow = Some n, success = True\<rparr> c))"
proof -
  let ?bs = "blockSize (cacheParams c)"
  obtain c3 where c3: "setVirtualRowCount rowCount mrf c = onCacheUpdated c3"
    "blocks c3 = blocks c" "active c3 = active c" "cacheParams c3 = cacheParams c"
    by (rule setVirtualRowCount_as_update)
  have ok3: "registry_ok c3" "active c3"
    using assms c3(2,3) by (simp_all add: registry_ok_def)
  have v3: "virtualRowCount (setVirtualRowCount rowCount mrf c) = virtualRowCount c3"
    unfolding c3(1) by simp
  have a: "blocks (setVirtualRowCount rowCount mrf c) =
           filter (\<lambda>(k, b). getBlockNumber b * ?bs
                              < virtualRowCount (setVirtualRowCount rowCount mrf c)) (blocks c)"
    unfolding v3 unfolding c3(1) onCacheUpdated_blocks [OF ok3] c3(2,4) ..
  have b: "DestroyBean (objId b) \<in> set (effects (setVirtualRowCount rowCount mrf c))"
    if "(k, b) \<in> set (blocks c)"
      and "virtualRowCount (setVirtualRowCount rowCount mrf c) \<le> getBlockNumber b * ?bs" for k b
  proof -
    have "(k, b) \<in> set (blocks c3)" using that(1) c3(2) by simp
    moreover have "virtualRowCount c3 \<le> getBlockNumber b * blockSize (cacheParams c3)"
      using that(2) v3 c3(4) by simp
    ultimately show ?thesis
      unfolding c3(1) by (rule onCacheUpdated_destroys [OF ok3])
  qed
  have load: "blocks (onPageLoaded \<lparr>page = pg, lastRow = l, success = True\<rparr> c) =
           filter (\<lambda>(k, b). getBlockNumber b * ?bs
                     < virtualRowCount (onPageLoaded \<lparr>page = pg, lastRow = l, success = True\<rparr> c))
             (blocks c)
       \<and> (\<forall>(k, b) \<in> set (blocks c).
             virtualRowCount (onPageLoaded \<lparr>page = pg, lastRow = l, success = True\<rparr> c)
               \<le> getBlockNumber b * ?bs
             \<longrightarrow> DestroyBean (objId b) \<in>
                   set (effects (onPageLoaded \<lparr>page = pg, lastRow = l, success = True\<rparr> c)))
       \<and> virtualRowCount (onPageLoaded \<lparr>page = pg, lastRow = l, success = True\<rparr> c) =
           virtualRowCount (checkVirtualRowCount pg l c)
       \<and> maxRowFound (onPageLoaded \<lparr>page = pg, lastRow = l, success = True\<rparr> c) =
           maxRowFound (checkVirtualRowCount pg l c)" for l
  proof -
    let ?ev = "\<lparr>page = pg, lastRow = l, success = True\<rparr>"
    let ?c1 = "checkVirtualRowCount pg l (checkBlockToLoad (emit [LoaderLoadComplete] c))"
    have eq: "onPageLoaded ?ev c = onCacheUpdated ?c1"
      using assms(2) by (simp add: onPageLoaded_def Let_def isActive_def checkBlockToLoad_def)
    have f: "blocks ?c1 = blocks c" "active ?c1" "cacheParams ?c1 = cacheParams c"
      using assms(2) by (simp_all add: checkBlockToLoad_def)
    have ok1: "registry_ok ?c1" using assms(1) f(1) by (simp add: registry_ok_def)
    have v: "virtualRowCount (onPageLoaded ?ev c) = virtualRowCount ?c1"
      unfolding eq by simp
    have v': "virtualRowCount ?c1 = virtualRowCount (checkVirtualRowCount pg l c)"
      "maxRowFound ?c1 = maxRowFound (checkVirtualRowCount pg l c)"
      by (simp_all add: checkVirtualRowCount_def checkBlockToLoad_def Let_def split: option.splits)
    have m: "maxRowFound (onPageLoaded ?ev c) = maxRowFound ?c1"
      unfolding eq by simp
    have d: "blocks (onPageLoaded ?ev c) =
        filter (\<lambda>(k, b). getBlockNumber b * ?bs < virtualRowCount (onPageLoaded ?ev c)) (blocks c)"
      unfolding v unfolding eq onCacheUpdated_blocks [OF ok1 f(2)] f(1,3) ..
    have e: "DestroyBean (objId b) \<in> set (effects (onPageLoaded ?ev c))"
      if "(k, b) \<in> set (blocks c)"
        and "virtualRowCount (onPageLoaded ?ev c) \<le> getBlockNumber b * ?bs" for k b
    proof -
      have "(k, b) \<in> set (blocks ?c1)" using that(1) f(1) by simp
      moreover have "virtualRowCount ?c1 \<le> getBlockNumber b * blockSize (cacheParams ?c1)"
        using that(2) v f(3) by simp
      ultimately show ?thesis
        unfolding eq by (rule onCacheUpdated_destroys [OF ok1 f(2)])
    qed
    from d e v v' m show ?thesis by auto
  qed
  have auth: "virtualRowCount (checkVirtualRowCount pg (Some n) c) = n"
    "maxRowFound (checkVirtualRowCount pg (Some n) c)" if "0 \<le> n"
    using that by (simp_all add: checkVirtualRowCount_def authoritativeLastRow_def)
  from a b load [of lr] load [of "Some n"] auth show ?thesis by auto
qed

theorem count_change_destroys_blocks_past_end_witness:
  "registry_ok (exampleCache (exampleParams 1 10 5 None)
      [exampleBlock 0 0 STATE_LOADED [], exampleBlock 1 1 STATE_LOADED [], exampleBlock 2 2 STATE_LOADED []])
   \<and> active (exampleCache (exampleParams 1 10 5 None)
      [exampleBlock 0 0 STATE_LOADED [], exampleBlock 1 1 STATE_LOADED [], exampleBlock 2 2 STATE_LOADED []])
   \<and> blocks (setVirtualRowCount 15 (Some True) (exampleCache (exampleParams 1 10 5 None)
      [exampleBlock 0 0 STATE_LOADED [], exampleBlock 1 1 STATE_LOADED [], exampleBlock 2 2 STATE_LOADED []]))
       = [(0, exampleBlock 0 0 STATE_LOADED []), (1, exampleBlock 1 1 STATE_LOADED [])]
   \<and> DestroyBean 2 \<in> set (effects (setVirtualRowCount 15 (Some True) (exampleCache (exampleParams 1 10 5 None)
      [exampleBlock 0 0 STATE_LOADED [], exampleBlock 1 1 STATE_LOADED [], exampleBlock 2 2 STATE_LOADED []])))
   \<and> blocks (onPageLoaded \<lparr>page = exampleBlock 0 0 STATE_LOADED [], lastRow = Some 5, success = True\<rparr>
        (exampleCache (exampleParams 1 10 5 None)
      [exampleBlock 0 0 STATE_LOADED [], exampleBlock 1 1 STATE_LOADED [], exampleBlock 2 2 STATE_LOADED []]))
       = [(0, exampleBlock 0 0 STATE_LOADED [])]"
  using count_change_destroys_blocks_past_end
          [of "exampleCache (exampleParams 1 10 5 None)
      [exampleBlock 0 0 STATE_LOADED [], exampleBlock 1 1 STATE_LOADED [], exampleBlock 2 2 STATE_LOADED []]"
              15 "Some True" "exampleBlock 0 0 STATE_LOADED []" "Some 5" 5]
  by (simp add: example_defs op_defs registry_ok_def)

section \<open>Eviction\<close>

lemma setBlock_simps [simp]:
  "virtualRowCount (setBlock i b c) = virtualRowCount c"
  "maxRowFound (setBlock i b c) = maxRowFound c"
  "cacheParams (setBlock i b c) = cacheParams c"
  "active (setBlock i b c) = active c"
  "blocks (setBlock i b c) = AList.update i b (blocks c)"
  "blockCount (setBlock i b c) = blockCount c + 1"
  "getFirstVirtualRenderedRow (setBlock i b c) = getFirstVirtualRenderedRow c"
  "getLastVirtualRenderedRow (setBlock i b c) = getLastVirtualRenderedRow c"
  "effects (setBlock i b c) = effects c @ [LoaderAddBlock (objId b)]"
  by (simp_all add: setBlock_def)

lemma purges_cong:
  assumes "virtualRowCount c' = virtualRowCount c" and "cacheParams c' = cacheParams c"
    and "getFirstVirtualRenderedRow c' = getFirstVirtualRenderedRow c"
    and "getLastVirtualRenderedRow c' = getLastVirtualRenderedRow c"
  shows "purges c' i b = purges c i b" and "exempt c' b = exempt c b"
  using assms
  by (simp_all add: purges_def exempt_def purgeBecauseCacheFull_def maxBlocksProvided_def
      blocksToKeep_def isBlockCurrentlyDisplayed_def)

lemma purgeStep_eq: "purgeStep (i, b) c = (if purges c i b then destroyBlock b c else c)"
  by (auto simp: purgeStep_def purges_def exempt_def removeBlockFromCache_def)

lemma purgeStep_frame [simp]:
  "virtualRowCount (purgeStep ib c) = virtualRowCount c"
  "maxRowFound (purgeStep ib c) = maxRowFound c"
  "cacheParams (purgeStep ib c) = cacheParams c"
  "active (purgeStep ib c) = active c"
  "getFirstVirtualRenderedRow (purgeStep ib c) = getFirstVirtualRenderedRow c"
  "getLastVirtualRenderedRow (purgeStep ib c) = getLastVirtualRenderedRow c"
  by (cases ib; simp add: purgeStep_eq)+

lemma fold_purgeStep_frame [simp]:
  "virtualRowCount (fold purgeStep ibs c) = virtualRowCount c"
  "maxRowFound (fold purgeStep ibs c) = maxRowFound c"
  "cacheParams (fold purgeStep ibs c) = cacheParams c"
  "active (fold purgeStep ibs c) = active c"
  "getFirstVirtualRenderedRow (fold purgeStep ibs c) = getFirstVirtualRenderedRow c"
  "getLastVirtualRenderedRow (fold purgeStep ibs c) = getLastVirtualRenderedRow c"
  by (induction ibs arbitrary: c; simp)+

lemma fold_purgeStep_blocks:
  "blocks (fold purgeStep ibs c) =
     filter (\<lambda>(k, _). k \<notin> getBlockNumber ` {b. \<exists>i. (i, b) \<in> set ibs \<and> purges c i b}) (blocks c)"
proof (induction ibs arbitrary: c)
  case Nil
  show ?case by simp
next
  case (Cons ib ibs)
  obtain i b where ib: "ib = (i, b)" by (cases ib)
  have p: "purges (purgeStep ib c) j b' = purges c j b'" for j b'
    by (rule purges_cong) simp_all
  show ?case
  proof (cases "purges c i b")
    case True
    then have "blocks (purgeStep ib c) = filter (\<lambda>(k, _). k \<noteq> getBlockNumber b) (blocks c)"
      by (auto simp: ib purgeStep_eq AList.delete_eq intro: filter_cong)
    then show ?thesis
      using True unfolding fold_simps Cons.IH p
      by (auto simp: ib intro!: filter_cong)
  next
    case False
    then have "blocks (purgeStep ib c) = blocks c" by (simp add: ib purgeStep_eq)
    then show ?thesis
      using False unfolding fold_simps Cons.IH p
      by (auto simp: ib intro!: filter_cong)
  qed
qed

lemma purgeBlocksIfNeeded_blocks:
  "blocks (purgeBlocksIfNeeded x c) =
     filter (\<lambda>(k, _). k \<notin> getBlockNumber `
        {b. \<exists>i < length (blocksForPurging x c). b = blocksForPurging x c ! i \<and> purges c i b})
       (blocks c)"
proof -
  have "{b. \<exists>i. (i, b) \<in> set (enumerate 0 (blocksForPurging x c)) \<and> purges c i b} =
        {b. \<exists>i < length (blocksForPurging x c). b = blocksForPurging x c ! i \<and> purges c i b}"
    by (auto simp: in_set_enumerate_eq)
  then show ?thesis
    by (simp add: purgeBlocksIfNeeded_def fold_purgeStep_blocks)
qed

lemma overlap_displayed:
  "displayRangeOverlapsViewport c b \<Longrightarrow> isBlockCurrentlyDisplayed c b"
  by (auto simp: displayRangeOverlapsViewport_def isBlockCurrentlyDisplayed_def js_minus_one_def
      split: jsnum.splits)

lemma set_blocksForPurging:
  assumes "registry_ok c"
  shows "set (blocksForPurging x c) = {b. \<exists>k. (k, b) \<in> set (blocks c) \<and> objId b \<noteq> objId x}"
proof -
  have d: "distinct (map fst (blocks c))" using assms by (simp add: registry_ok_def)
  show ?thesis by (simp add: blocksForPurging_def set_pushIf [OF d])
qed

lemma set_alist_update:
  "distinct (map fst al) \<Longrightarrow> set (AList.update k v al) = insert (k, v) {e \<in> set al. fst e \<noteq> k}"
  by (induction al) (auto intro: rev_image_eqI)

lemma registry_ok_setBlock:
  assumes "registry_ok c"
  shows "registry_ok (setBlock (getBlockNumber b) b c)"
proof -
  have d: "distinct (map fst (blocks c))" using assms by (simp add: registry_ok_def)
  have "distinct (map fst (AList.update (getBlockNumber b) b (blocks c)))"
    using d by (rule distinct_update)
  moreover have "getBlockNumber b' = k"
    if "(k, b') \<in> set (AList.update (getBlockNumber b) b (blocks c))" for k b'
    using that assms unfolding set_alist_update [OF d] by (auto simp: registry_ok_def)
  ultimately show ?thesis by (auto simp: registry_ok_def)
qed

lemma registry_ok_inserted: "registry_ok c \<Longrightarrow> registry_ok (inserted b c)"
  unfolding inserted_def by (rule registry_ok_setBlock) (simp add: registry_ok_def)

lemma inserted_frame [simp]:
  "virtualRowCount (inserted b c) = virtualRowCount c"
  "maxRowFound (inserted b c) = maxRowFound c"
  "cacheParams (inserted b c) = cacheParams c"
  "active (inserted b c) = active c"
  "blocks (inserted b c) = AList.update (getBlockNumber b) b (blocks c)"
  "getFirstVirtualRenderedRow (inserted b c) = getFirstVirtualRenderedRow c"
  "getLastVirtualRenderedRow (inserted b c) = getLastVirtualRenderedRow c"
  by (simp_all add: inserted_def)

lemma postCreateBlock_blocks:
  "blocks (postCreateBlock b c) = blocks (purgeBlocksIfNeeded b (inserted b c))"
  by (simp add: postCreateBlock_def inserted_def checkBlockToLoad_def)

lemma exempt_survives:
  assumes ok: "registry_ok c" and mem: "(k, b) \<in> set (blocks c)" and ex: "exempt c b"
  shows "(k, b) \<in> set (blocks (purgeBlocksIfNeeded x c))"
proof -
  let ?cands = "blocksForPurging x c"
  have "k \<notin> getBlockNumber ` {b'. \<exists>i < length ?cands. b' = ?cands ! i \<and> purges c i b'}"
  proof
    assume "k \<in> getBlockNumber ` {b'. \<exists>i < length ?cands. b' = ?cands ! i \<and> purges c i b'}"
    then obtain b' i where b': "i < length ?cands" "b' = ?cands ! i" "purges c i b'"
      "k = getBlockNumber b'" by auto
    then have "b' \<in> set ?cands" by simp
    then obtain k' where "(k', b') \<in> set (blocks c)"
      unfolding set_blocksForPurging [OF ok] by auto
    moreover from this have "k' = k" using registry_ok_key [OF ok] b'(4) by simp
    ultimately have "b' = b" using registry_ok_unique [OF ok mem] by simp
    with b'(3) ex show False by (simp add: purges_def)
  qed
  with mem show ?thesis by (simp add: purgeBlocksIfNeeded_blocks)
qed

text \<open>
  Claim C2. In a registry keyed by block number (\<open>registry_ok\<close>, which a fresh cache
  satisfies and every operation keeps, as shown further down), a block that reports an
  open node for the current row count,
  or that \<open>isBlockCurrentlyDisplayed\<close> finds in the viewport (in particular one whose
  display-index range meets the visible rows), is still registered after the eviction
  pass, whichever block is excluded and whatever the cap, the access stamps and the load
  states are. The same holds across \<open>postCreateBlock\<close> for every block but the one
  stored under the new block's number, which \<open>setBlock\<close> replaces.
\<close>

theorem open_or_displayed_never_evicted:
  assumes "registry_ok c" and "(k, b) \<in> set (blocks c)"
    and "isAnyNodeOpen b (virtualRowCount c) \<or> isBlockCurrentlyDisplayed c b
         \<or> displayRangeOverlapsViewport c b"
  shows "(k, b) \<in> set (blocks (purgeBlocksIfNeeded blockToExclude c))
       \<and> (k \<noteq> getBlockNumber newBlock \<longrightarrow> (k, b) \<in> set (blocks (postCreateBlock newBlock c)))"
proof -
  have ex: "exempt c b" using assms(3) overlap_displayed by (auto simp: exempt_def)
  have a: "(k, b) \<in> set (blocks (purgeBlocksIfNeeded blockToExclude c))"
    using assms(1,2) ex by (rule exempt_survives)
  have b: "(k, b) \<in> set (blocks (postCreateBlock newBlock c))" if "k \<noteq> getBlockNumber newBlock"
  proof -
    have d: "distinct (map fst (blocks c))" using assms(1) by (simp add: registry_ok_def)
    have "(k, b) \<in> set (blocks (inserted newBlock c))"
      using assms(2) that by (simp add: set_alist_update [OF d])
    moreover have "exempt (inserted newBlock c) b"
      using ex purges_cong(2) [of "inserted newBlock c" c b] by simp
    ultimately show ?thesis
      unfolding postCreateBlock_blocks
      by (rule exempt_survives [OF registry_ok_inserted [OF assms(1)]])
  qed
  from a b show ?thesis by blast
qed

theorem open_or_displayed_never_evicted_witness:
  "registry_ok (exampleCache (exampleParams 1 10 5 (Some 1))
      [exampleOpenBlock 0 0, exampleDisplayedBlock 1 1 0 10, exampleBlock 5 2 STATE_LOADED []])
   \<and> blocks (exampleCache (exampleParams 1 10 5 (Some 1))
      [exampleOpenBlock 0 0, exampleDisplayedBlock 1 1 0 10, exampleBlock 5 2 STATE_LOADED []])
       = [(0, exampleOpenBlock 0 0), (1, exampleDisplayedBlock 1 1 0 10),
          (5, exampleBlock 5 2 STATE_LOADED [])]
   \<and> isAnyNodeOpen (exampleOpenBlock 0 0) 1
   \<and> displayRangeOverlapsViewport (exampleCache (exampleParams 1 10 5 (Some 1))
      [exampleOpenBlock 0 0, exampleDisplayedBlock 1 1 0 10, exampleBlock 5 2 STATE_LOADED []])
        (exampleDisplayedBlock 1 1 0 10)
   \<and> blocks (postCreateBlock (exampleBlock 9 3 STATE_DIRTY [])
        (exampleCache (exampleParams 1 10 5 (Some 1))
      [exampleOpenBlock 0 0, exampleDisplayedBlock 1 1 0 10, exampleBlock 5 2 STATE_LOADED []]))
       = [(0, exampleOpenBlock 0 0), (1, exampleDisplayedBlock 1 1 0 10),
          (9, exampleBlock 9 3 STATE_DIRTY [])]"
  using open_or_displayed_never_evicted
          [of "exampleCache (exampleParams 1 10 5 (Some 1))
      [exampleOpenBlock 0 0, exampleDisplayedBlock 1 1 0 10, exampleBlock 5 2 STATE_LOADED []]"
              0 "exampleOpenBlock 0 0" "exampleBlock 9 3 STATE_DIRTY []" "exampleBlock 9 3 STATE_DIRTY []"]
        open_or_displayed_never_evicted
          [of "exampleCache (exampleParams 1 10 5 (Some 1))
      [exampleOpenBlock 0 0, exampleDisplayedBlock 1 1 0 10, exampleBlock 5 2 STATE_LOADED []]"
              1 "exampleDisplayedBlock 1 1 0 10" "exampleBlock 9 3 STATE_DIRTY []" "exampleBlock 9 3 STATE_DIRTY []"]
  by (simp add: example_defs registry_ok_def displayRangeOverlapsViewport_def)

section \<open>The cap on the number of blocks\<close>

lemma map_filter_keys:
  assumes "\<And>i b. i \<in> set ids \<Longrightarrow> g i = Some b \<Longrightarrow> h b = i"
  shows "map h (List.map_filter g ids) = filter (\<lambda>i. g i \<noteq> None) ids"
  using assms by (induction ids) (auto split: option.splits)

lemma distinct_blocksForPurging:
  assumes "registry_ok c"
  shows "distinct (blocksForPurging x c)"
proof -
  let ?g = "\<lambda>i. case map_of (blocks c) i of None \<Rightarrow> None
                | Some b \<Rightarrow> if objId b \<noteq> objId x then Some b else None"
  have d: "distinct (map fst (blocks c))" using assms by (simp add: registry_ok_def)
  have key: "getBlockNumber b = i" if "?g i = Some b" for i b
  proof -
    from that have "map_of (blocks c) i = Some b" by (auto split: option.splits if_splits)
    then have "(i, b) \<in> set (blocks c)" by (rule map_of_SomeD)
    then show ?thesis by (rule registry_ok_key [OF assms])
  qed
  have "map getBlockNumber (List.map_filter ?g (getBlockIdsSorted c)) =
          filter (\<lambda>i. ?g i \<noteq> None) (getBlockIdsSorted c)"
    by (rule map_filter_keys) (rule key)
  moreover have "distinct (getBlockIdsSorted c)"
    using d by (simp add: getBlockIdsSorted_def)
  ultimately have "distinct (map getBlockNumber (List.map_filter ?g (getBlockIdsSorted c)))"
    by simp
  then have "distinct (List.map_filter ?g (getBlockIdsSorted c))"
    by (simp add: distinct_map)
  then show ?thesis
    by (simp add: blocksForPurging_def forEachBlockInOrder_def forEachBlockId_pushIf)
qed

lemma blocksForPurging_recency:
  assumes "i \<le> j" and "j < length (blocksForPurging x c)"
  shows "getLastAccessed (blocksForPurging x c ! j) \<le> getLastAccessed (blocksForPurging x c ! i)"
proof -
  have "sorted (map (\<lambda>b. - getLastAccessed b) (blocksForPurging x c))"
    unfolding blocksForPurging_def by (rule sorted_sort_key)
  then have "map (\<lambda>b. - getLastAccessed b) (blocksForPurging x c) ! i
               \<le> map (\<lambda>b. - getLastAccessed b) (blocksForPurging x c) ! j"
    using assms by (simp add: sorted_iff_nth_mono del: nth_map)
  then show ?thesis using assms by simp
qed

lemma registry_ok_purge:
  assumes "registry_ok c"
  shows "registry_ok (purgeBlocksIfNeeded x c)"
  using assms
  by (auto simp: registry_ok_def purgeBlocksIfNeeded_blocks distinct_map_filter)

lemma length_registry_card:
  assumes "registry_ok c"
  shows "length (blocks c) = card (snd ` set (blocks c))"
proof -
  have i: "inj_on snd (set (blocks c))"
  proof (rule inj_onI)
    fix e e' assume a: "e \<in> set (blocks c)" "e' \<in> set (blocks c)" "snd e = snd e'"
    obtain k b where e: "e = (k, b)" by (cases e)
    obtain k' b' where e': "e' = (k', b')" by (cases e')
    have "getBlockNumber b = k" using a(1) e registry_ok_key [OF assms] by simp
    moreover have "getBlockNumber b' = k'" using a(2) e' registry_ok_key [OF assms] by simp
    ultimately show "e = e'" using a(3) e e' by simp
  qed
  have "distinct (blocks c)"
    using assms by (simp add: registry_ok_def distinct_map)
  then have "length (blocks c) = card (set (blocks c))" by (simp add: distinct_card)
  also have "\<dots> = card (snd ` set (blocks c))" using i by (simp add: card_image)
  finally show ?thesis .
qed

text \<open>
  Claim C4, as stated, fails: a candidate among the \<open>N - 1\<close> most recently accessed ones
  is still evicted when it is an unloaded block at sorted position 1 or later. With a cap
  of 3, a loaded block 0 (accessed at 5) and an unloaded block 1 (accessed at 3), creating
  block 2 evicts block 1 from sorted position 1, although neither guard exempts anything.
\<close>

theorem cap_keeps_recent_counterexample:
  "maxBlocksInCache (cacheParams (exampleCache (exampleParams 1 10 5 (Some 3))
      [exampleBlock 0 5 STATE_LOADED [], exampleBlock 1 3 STATE_DIRTY []])) = Some 3
   \<and> blocksForPurging (exampleBlock 2 0 STATE_DIRTY [])
        (inserted (exampleBlock 2 0 STATE_DIRTY [])
          (exampleCache (exampleParams 1 10 5 (Some 3))
            [exampleBlock 0 5 STATE_LOADED [], exampleBlock 1 3 STATE_DIRTY []]))
       = [exampleBlock 0 5 STATE_LOADED [], exampleBlock 1 3 STATE_DIRTY []]
   \<and> \<not> exempt (inserted (exampleBlock 2 0 STATE_DIRTY [])
          (exampleCache (exampleParams 1 10 5 (Some 3))
            [exampleBlock 0 5 STATE_LOADED [], exampleBlock 1 3 STATE_DIRTY []]))
        (exampleBlock 0 5 STATE_LOADED [])
   \<and> \<not> exempt (inserted (exampleBlock 2 0 STATE_DIRTY [])
          (exampleCache (exampleParams 1 10 5 (Some 3))
            [exampleBlock 0 5 STATE_LOADED [], exampleBlock 1 3 STATE_DIRTY []]))
        (exampleBlock 1 3 STATE_DIRTY [])
   \<and> blocks (postCreateBlock (exampleBlock 2 0 STATE_DIRTY [])
          (exampleCache (exampleParams 1 10 5 (Some 3))
            [exampleBlock 0 5 STATE_LOADED [], exampleBlock 1 3 STATE_DIRTY []]))
       = [(0, exampleBlock 0 5 STATE_LOADED []), (2, exampleBlock 2 0 STATE_DIRTY [])]"
  by (simp add: example_defs inserted_def exempt_def)

text \<open>
  Claim C4, amended. With a cap \<open>N > 0\<close>, a registry keyed by block number, a new block
  that is a fresh object and no candidate exempt, \<open>postCreateBlock\<close> leaves at most \<open>N\<close>
  blocks registered, the new block among them; every candidate at sorted position
  \<open>N - 1\<close> or later is gone, and so is every unloaded candidate at position 1 or later;
  any other candidate stays. The positions go from the most to the least
  recently accessed candidate.
\<close>

theorem cap_bounds_live_blocks:
  assumes ok: "registry_ok c"
    and fresh: "\<forall>(k, b) \<in> set (blocks c). objId b \<noteq> objId newBlock"
    and cap: "maxBlocksInCache (cacheParams c) = Some N" "0 < N"
    and noex: "\<forall>b \<in> set (blocksForPurging newBlock (inserted newBlock c)).
                 \<not> exempt (inserted newBlock c) b"
  shows "length (blocks (postCreateBlock newBlock c)) \<le> nat N
       \<and> (getBlockNumber newBlock, newBlock) \<in> set (blocks (postCreateBlock newBlock c))
       \<and> (\<forall>i < length (blocksForPurging newBlock (inserted newBlock c)).
             N - 1 \<le> int i \<longrightarrow>
               blocksForPurging newBlock (inserted newBlock c) ! i
                 \<notin> snd ` set (blocks (postCreateBlock newBlock c)))
       \<and> (\<forall>i < length (blocksForPurging newBlock (inserted newBlock c)).
             getState (blocksForPurging newBlock (inserted newBlock c) ! i) = STATE_DIRTY \<and> 1 \<le> i \<longrightarrow>
               blocksForPurging newBlock (inserted newBlock c) ! i
                 \<notin> snd ` set (blocks (postCreateBlock newBlock c)))
       \<and> (\<forall>i < length (blocksForPurging newBlock (inserted newBlock c)).
             int i < N - 1
             \<and> \<not> purgeBecauseBlockEmpty (blocksForPurging newBlock (inserted newBlock c) ! i) i \<longrightarrow>
               (getBlockNumber (blocksForPurging newBlock (inserted newBlock c) ! i),
                blocksForPurging newBlock (inserted newBlock c) ! i)
                 \<in> set (blocks (postCreateBlock newBlock c)))
       \<and> (\<forall>i j. i \<le> j \<and> j < length (blocksForPurging newBlock (inserted newBlock c)) \<longrightarrow>
             getLastAccessed (blocksForPurging newBlock (inserted newBlock c) ! j)
               \<le> getLastAccessed (blocksForPurging newBlock (inserted newBlock c) ! i))"
proof -
  let ?key = "getBlockNumber newBlock"
  let ?c1 = "inserted newBlock c"
  let ?cands = "blocksForPurging newBlock ?c1"
  let ?post = "postCreateBlock newBlock c"
  let ?K = "getBlockNumber ` {b'. \<exists>i < length ?cands. b' = ?cands ! i \<and> purges ?c1 i b'}"
  have d: "distinct (map fst (blocks c))" using ok by (simp add: registry_ok_def)
  have ok1: "registry_ok ?c1" using ok by (rule registry_ok_inserted)
  have post: "blocks ?post = filter (\<lambda>(k, _). k \<notin> ?K) (blocks ?c1)"
    by (simp only: postCreateBlock_blocks purgeBlocksIfNeeded_blocks)
  have set1: "set (blocks ?c1) = insert (?key, newBlock) {e \<in> set (blocks c). fst e \<noteq> ?key}"
    by (simp add: set_alist_update [OF d])
  have cands_set: "set ?cands = {b. \<exists>k. (k, b) \<in> set (blocks ?c1) \<and> objId b \<noteq> objId newBlock}"
    by (rule set_blocksForPurging [OF ok1])
  have dc: "distinct ?cands" by (rule distinct_blocksForPurging [OF ok1])
  have full: "purgeBecauseCacheFull ?c1 i \<longleftrightarrow> N - 1 \<le> int i" for i
    using cap by (simp add: purgeBecauseCacheFull_def maxBlocksProvided_def blocksToKeep_def)
  have purges_iff: "purges ?c1 i b \<longleftrightarrow> purgeBecauseBlockEmpty b i \<or> N - 1 \<le> int i"
    if "b \<in> set ?cands" for i b
    using noex that by (simp add: purges_def full)
  have K_char: "\<exists>i < length ?cands. b = ?cands ! i \<and> purges ?c1 i b"
    if "k \<in> ?K" and "(k, b) \<in> set (blocks ?c1)" for k b
  proof -
    from that(1) obtain b' i where b': "i < length ?cands" "b' = ?cands ! i" "purges ?c1 i b'"
      "k = getBlockNumber b'" by auto
    then have "b' \<in> set ?cands" by simp
    then obtain k' where k': "(k', b') \<in> set (blocks ?c1)" unfolding cands_set by auto
    then have "k' = k" using registry_ok_key [OF ok1] b'(4) by simp
    with k' have "b' = b" using registry_ok_unique [OF ok1 that(2)] by simp
    with b' show ?thesis by auto
  qed
  have key_of: "k = getBlockNumber b" if "(k, b) \<in> set (blocks ?c1)" for k b
    using registry_ok_key [OF ok1 that] by simp

  have kept_new: "(?key, newBlock) \<in> set (blocks ?post)"
  proof -
    have m: "(?key, newBlock) \<in> set (blocks ?c1)" unfolding set1 by simp
    have "?key \<notin> ?K"
    proof
      assume "?key \<in> ?K"
      from K_char [OF this m] obtain i where "i < length ?cands" "newBlock = ?cands ! i" by auto
      then have "newBlock \<in> set ?cands" by (metis nth_mem)
      then show False unfolding cands_set by simp
    qed
    with m show ?thesis unfolding post by simp
  qed

  have gone: "?cands ! i \<notin> snd ` set (blocks ?post)"
    if "i < length ?cands" and "purgeBecauseBlockEmpty (?cands ! i) i \<or> N - 1 \<le> int i" for i
  proof
    assume "?cands ! i \<in> snd ` set (blocks ?post)"
    then obtain k where k: "(k, ?cands ! i) \<in> set (blocks ?c1)" "k \<notin> ?K"
      unfolding post by auto
    have "purges ?c1 i (?cands ! i)" using that by (simp add: purges_iff)
    then have "getBlockNumber (?cands ! i) \<in> ?K" using that(1) by blast
    with k key_of [OF k(1)] show False by simp
  qed
  have evicted: "?cands ! i \<notin> snd ` set (blocks ?post)"
    if "i < length ?cands" and "N - 1 \<le> int i" for i
    using that by (simp add: gone)
  have evicted_dirty: "?cands ! i \<notin> snd ` set (blocks ?post)"
    if "i < length ?cands" and "getState (?cands ! i) = STATE_DIRTY" and "1 \<le> i" for i
  proof -
    have "purgeBecauseBlockEmpty (?cands ! i) i"
      using that(2,3) by (simp add: purgeBecauseBlockEmpty_def MAX_EMPTY_BLOCKS_TO_KEEP_def)
    with that(1) show ?thesis by (simp add: gone)
  qed

  have kept: "(getBlockNumber (?cands ! i), ?cands ! i) \<in> set (blocks ?post)"
    if "i < length ?cands" and "int i < N - 1" and "\<not> purgeBecauseBlockEmpty (?cands ! i) i" for i
  proof -
    have mem: "?cands ! i \<in> set ?cands" using that(1) by simp
    then obtain k where k: "(k, ?cands ! i) \<in> set (blocks ?c1)" unfolding cands_set by auto
    have keq: "k = getBlockNumber (?cands ! i)" by (rule key_of [OF k])
    have "k \<notin> ?K"
    proof
      assume "k \<in> ?K"
      from K_char [OF this k] obtain j where j: "j < length ?cands" "?cands ! i = ?cands ! j"
        "purges ?c1 j (?cands ! i)" by auto
      have "j = i" using dc j(1,2) that(1) by (simp add: nth_eq_iff_index_eq)
      with j(3) that(2,3) mem show False by (simp add: purges_iff)
    qed
    with k keq show ?thesis unfolding post by simp
  qed

  have sub: "snd ` set (blocks ?post) \<subseteq> insert newBlock (set (take (nat (N - 1)) ?cands))"
  proof
    fix b assume "b \<in> snd ` set (blocks ?post)"
    then obtain k where k: "(k, b) \<in> set (blocks ?c1)" "k \<notin> ?K" unfolding post by auto
    show "b \<in> insert newBlock (set (take (nat (N - 1)) ?cands))"
    proof (cases "b = newBlock")
      case True
      then show ?thesis by simp
    next
      case False
      with k(1) have "(k, b) \<in> set (blocks c)" unfolding set1 by auto
      with fresh have "objId b \<noteq> objId newBlock" by auto
      with k(1) have "b \<in> set ?cands" unfolding cands_set by auto
      then obtain i where i: "i < length ?cands" "?cands ! i = b" by (auto simp: in_set_conv_nth)
      have "int i < N - 1"
      proof (rule ccontr)
        assume "\<not> int i < N - 1"
        then have "purges ?c1 i (?cands ! i)" using i(1) by (simp add: purges_iff)
        then have "getBlockNumber (?cands ! i) \<in> ?K" using i(1) by blast
        with k(2) key_of [OF k(1)] i(2) show False by simp
      qed
      then have "i < length (take (nat (N - 1)) ?cands)" using i(1) by simp
      moreover from this have "take (nat (N - 1)) ?cands ! i = b" using i(2) by simp
      ultimately have "b \<in> set (take (nat (N - 1)) ?cands)"
        unfolding in_set_conv_nth by blast
      then show ?thesis by simp
    qed
  qed
  have "registry_ok (purgeBlocksIfNeeded newBlock ?c1)" using ok1 by (rule registry_ok_purge)
  then have "length (blocks ?post) = card (snd ` set (blocks ?post))"
    unfolding postCreateBlock_blocks by (rule length_registry_card)
  also have "\<dots> \<le> card (insert newBlock (set (take (nat (N - 1)) ?cands)))"
    using sub by (simp add: card_mono)
  also have "\<dots> \<le> Suc (card (set (take (nat (N - 1)) ?cands)))"
    by (simp add: card_insert_if)
  also have "\<dots> \<le> Suc (length (take (nat (N - 1)) ?cands))"
    using card_length [of "take (nat (N - 1)) ?cands"] by simp
  also have "\<dots> \<le> nat N" using cap(2) by simp
  finally have bound: "length (blocks ?post) \<le> nat N" .

  from bound kept_new evicted evicted_dirty kept blocksForPurging_recency [of _ _ newBlock ?c1]
  show ?thesis by blast
qed

theorem cap_bounds_live_blocks_witness:
  "registry_ok (exampleCache (exampleParams 1 10 5 (Some 3))
      [exampleBlock 0 0 STATE_LOADED [], exampleBlock 1 1 STATE_LOADED [], exampleBlock 2 2 STATE_LOADED []])
   \<and> blocksForPurging (exampleBlock 3 3 STATE_LOADED [])
        (inserted (exampleBlock 3 3 STATE_LOADED [])
          (exampleCache (exampleParams 1 10 5 (Some 3))
      [exampleBlock 0 0 STATE_LOADED [], exampleBlock 1 1 STATE_LOADED [], exampleBlock 2 2 STATE_LOADED []]))
       = [exampleBlock 2 2 STATE_LOADED [], exampleBlock 1 1 STATE_LOADED [], exampleBlock 0 0 STATE_LOADED []]
   \<and> blocks (postCreateBlock (exampleBlock 3 3 STATE_LOADED [])
          (exampleCache (exampleParams 1 10 5 (Some 3))
      [exampleBlock 0 0 STATE_LOADED [], exampleBlock 1 1 STATE_LOADED [], exampleBlock 2 2 STATE_LOADED []]))
       = [(1, exampleBlock 1 1 STATE_LOADED []), (2, exampleBlock 2 2 STATE_LOADED []),
          (3, exampleBlock 3 3 STATE_LOADED [])]"
  using cap_bounds_live_blocks
          [of "exampleCache (exampleParams 1 10 5 (Some 3))
      [exampleBlock 0 0 STATE_LOADED [], exampleBlock 1 1 STATE_LOADED [], exampleBlock 2 2 STATE_LOADED []]"
              "exampleBlock 3 3 STATE_LOADED []" 3]
  by (simp add: example_defs inserted_def exempt_def registry_ok_def)

section \<open>The registry stays keyed by block number\<close>

text \<open>
  A fresh cache satisfies \<open>registry_ok\<close>, and every operation of the cache keeps it.
\<close>

lemma registry_ok_filter:
  assumes "registry_ok c" and "blocks c' = filter Q (blocks c)"
  shows "registry_ok c'"
  using assms by (auto simp: registry_ok_def distinct_map_filter)

lemma registry_ok_newCache: "registry_ok (newCache p fr lr)"
  by (simp add: registry_ok_def newCache_def)

lemma registry_ok_destroyBlock: "registry_ok c \<Longrightarrow> registry_ok (destroyBlock b c)"
  by (erule registry_ok_filter) (simp add: AList.delete_eq)

lemma registry_ok_postCreateBlock: "registry_ok c \<Longrightarrow> registry_ok (postCreateBlock b c)"
  using registry_ok_purge [OF registry_ok_inserted, of c b b]
  by (simp add: registry_ok_def postCreateBlock_blocks)

lemma registry_ok_onCacheUpdated: "registry_ok c \<Longrightarrow> registry_ok (onCacheUpdated c)"
proof (cases "active c")
  case True
  assume "registry_ok c"
  then show ?thesis
    by (rule registry_ok_filter) (simp add: onCacheUpdated_def isActive_def True
        destroyAllBlocksPastVirtualRowCount_def Let_def fold_destroyBlock_blocks)
next
  case False
  assume "registry_ok c"
  then show ?thesis using False by (simp add: onCacheUpdated_def isActive_def)
qed

lemma registry_ok_setVirtualRowCount:
  assumes "registry_ok c"
  shows "registry_ok (setVirtualRowCount rowCount mrf c)"
proof -
  obtain c3 where c3: "setVirtualRowCount rowCount mrf c = onCacheUpdated c3" "blocks c3 = blocks c"
    by (rule setVirtualRowCount_as_update)
  have "registry_ok c3" using assms c3(2) by (simp add: registry_ok_def)
  then show ?thesis unfolding c3(1) by (rule registry_ok_onCacheUpdated)
qed

lemma registry_ok_onPageLoaded:
  assumes "registry_ok c"
  shows "registry_ok (onPageLoaded event c)"
proof -
  let ?c1 = "checkBlockToLoad (emit [LoaderLoadComplete] c)"
  have 1: "registry_ok ?c1" using assms by (simp add: registry_ok_def checkBlockToLoad_def)
  then have "registry_ok (checkVirtualRowCount (page event) (lastRow event) ?c1)"
    by (simp add: registry_ok_def)
  then have "registry_ok (onCacheUpdated (checkVirtualRowCount (page event) (lastRow event) ?c1))"
    by (rule registry_ok_onCacheUpdated)
  with 1 show ?thesis by (simp add: onPageLoaded_def Let_def)
qed

lemma registry_ok_removeEach:
  "registry_ok c \<Longrightarrow> registry_ok (snd (forEachBlockId ids removeEach (u, c)))"
proof (induction ids arbitrary: c u)
  case Nil
  then show ?case by simp
next
  case (Cons i ids)
  have "registry_ok (removeBlockFromCache (map_of (blocks c) i) c)"
    using Cons.prems by (simp add: removeBlockFromCache_def registry_ok_destroyBlock split: option.splits)
  from Cons.IH [OF this] show ?case by (simp add: removeEach_def)
qed

lemma registry_ok_purgeCache:
  assumes "registry_ok c"
  shows "registry_ok (purgeCache c)"
proof -
  let ?c1 = "snd (forEachBlockInOrder removeEach ((), c))"
  have 1: "registry_ok ?c1"
    unfolding forEachBlockInOrder_def using assms by (simp add: registry_ok_removeEach)
  let ?c3 = "if virtualRowCount ?c1 = 0
             then ?c1\<lparr>maxRowFound := False, virtualRowCount := initialRowCount (cacheParams ?c1)\<rparr>
             else ?c1\<lparr>maxRowFound := False\<rparr>"
  have "registry_ok ?c3" using 1 by (simp add: registry_ok_def)
  then have "registry_ok (onCacheUpdated ?c3)" by (rule registry_ok_onCacheUpdated)
  then show ?thesis by (simp add: purgeCache_def Let_def split: if_splits)
qed

section \<open>Range selection between two anchors\<close>

subsection \<open>The walk over the rows of one block\<close>

lemma forEachBlockId_blockStep:
  assumes "\<forall>i \<in> set ids. map_of (blocks c) i \<noteq> None"
  shows "forEachBlockId ids (blockStep f l) (w, c) =
           (fold (rowsStep f l)
              (List.map_filter
                 (\<lambda>i. map_option (\<lambda>b. (i, forEachNodeShallow b (virtualRowCount c)))
                        (map_of (blocks c) i)) ids) w, c)"
  using assms
  by (induction ids arbitrary: w) (auto simp: blockStep_def rowsStep_def)

lemma getRowNodesInRange_walk:
  "getRowNodesInRange f l c =
     (let w = fold (rowsStep f l) (blockRows c)
                \<lparr>result = [], lastBlockId = - 1, inActiveRange = missing f,
                 foundGapInSelection = False\<rparr>
      in if foundGapInSelection w \<or> inActiveRange w then [] else result w)"
proof -
  have "\<forall>i \<in> set (getBlockIdsSorted c). map_of (blocks c) i \<noteq> None"
    by (simp add: getBlockIdsSorted_def map_of_eq_None_iff)
  then show ?thesis
    by (simp add: getRowNodesInRange_def forEachBlockInOrder_def forEachBlockId_blockStep
        blockRows_def Let_def)
qed

lemma rowStep_frame [simp]:
  "lastBlockId (rowStep f l x w) = lastBlockId w"
  "foundGapInSelection (rowStep f l x w) = foundGapInSelection w"
  by (simp_all add: rowStep_def Let_def)

lemma fold_rowStep_frame [simp]:
  "lastBlockId (fold (rowStep f l) xs w) = lastBlockId w"
  "foundGapInSelection (fold (rowStep f l) xs w) = foundGapInSelection w"
  by (induction xs arbitrary: w; simp)+

lemma rowStep_lastBlockId:
  "rowStep f l x (w\<lparr>lastBlockId := L\<rparr>) = (rowStep f l x w)\<lparr>lastBlockId := L\<rparr>"
  by (simp add: rowStep_def Let_def)

lemma fold_rowStep_lastBlockId:
  "fold (rowStep f l) xs (w\<lparr>lastBlockId := L\<rparr>) = (fold (rowStep f l) xs w)\<lparr>lastBlockId := L\<rparr>"
  by (induction xs arbitrary: w) (simp_all add: rowStep_lastBlockId)

lemma fold_rowStep_outside:
  assumes "\<not> inActiveRange w" and "\<forall>x \<in> set xs. Some x \<noteq> f \<and> Some x \<noteq> l"
  shows "fold (rowStep f l) xs w = w"
  using assms by (induction xs arbitrary: w) (simp_all add: rowStep_def)

lemma fold_rowStep_inside:
  assumes "inActiveRange w" and "\<forall>x \<in> set xs. Some x \<noteq> f \<and> Some x \<noteq> l"
  shows "fold (rowStep f l) xs w = w\<lparr>result := result w @ xs\<rparr>"
  using assms by (induction xs arbitrary: w) (simp_all add: rowStep_def)

lemma fold_rowStep_parity:
  "inActiveRange (fold (rowStep f l) xs w) =
     (inActiveRange w \<noteq> odd (length (filter (\<lambda>x. Some x = f \<or> Some x = l) xs)))"
  by (induction xs arbitrary: w) (auto simp: rowStep_def Let_def)

lemma fold_rowStep_anchors:
  assumes "A \<noteq> B" and "\<not> inActiveRange w"
    and "A \<notin> set (pre @ mid @ post)" and "B \<notin> set (pre @ mid @ post)"
  shows "fold (rowStep (Some A) (Some B)) (pre @ A # mid @ B # post) w =
           w\<lparr>result := result w @ A # mid @ [B]\<rparr>"
proof -
  let ?st = "rowStep (Some A) (Some B)"
  have n: "\<forall>x \<in> set pre. Some x \<noteq> Some A \<and> Some x \<noteq> Some B"
    "\<forall>x \<in> set mid. Some x \<noteq> Some A \<and> Some x \<noteq> Some B"
    "\<forall>x \<in> set post. Some x \<noteq> Some A \<and> Some x \<noteq> Some B"
    using assms(3,4) by auto
  let ?w2 = "w\<lparr>result := result w @ [A], inActiveRange := True\<rparr>"
  let ?w3 = "w\<lparr>result := result w @ A # mid, inActiveRange := True\<rparr>"
  let ?w4 = "w\<lparr>result := result w @ A # mid @ [B]\<rparr>"
  have "fold ?st (pre @ A # mid @ B # post) w = fold ?st post (?st B (fold ?st mid (?st A (fold ?st pre w))))"
    by simp
  also have "fold ?st pre w = w" using assms(2) n(1) by (rule fold_rowStep_outside)
  also have "?st A w = ?w2" using assms(2) by (simp add: rowStep_def)
  also have "fold ?st mid ?w2 = ?w3"
    using fold_rowStep_inside [of ?w2 mid "Some A" "Some B"] n(2) by simp
  also have "?st B ?w3 = ?w4" using assms(1,2) by (simp add: rowStep_def)
  also have "fold ?st post ?w4 = ?w4"
    using fold_rowStep_outside [of ?w4 post "Some A" "Some B"] n(3) assms(2) by simp
  finally show ?thesis .
qed

subsection \<open>The walk over the blocks\<close>

lemma rowsStep_gap_stays:
  "foundGapInSelection w \<Longrightarrow> fold (rowsStep f l) bs w = w"
  by (induction bs) (simp_all add: rowsStep_def)

lemma rowsStep_gap_mono:
  "foundGapInSelection w \<Longrightarrow> foundGapInSelection (fold (rowsStep f l) bs w)"
  by (simp add: rowsStep_gap_stays)

lemma rowsStep_no_gap_flat:
  assumes "\<not> foundGapInSelection (fold (rowsStep f l) bs w)"
  shows "\<exists>L. fold (rowsStep f l) bs w =
               (fold (rowStep f l) (concat (map snd bs)) w)\<lparr>lastBlockId := L\<rparr>"
  using assms
proof (induction bs arbitrary: w)
  case Nil
  have "w = w\<lparr>lastBlockId := lastBlockId w\<rparr>" by simp
  then show ?case by (metis concat.simps(1) fold_simps(1) list.simps(8))
next
  case (Cons b bs)
  have ng: "\<not> foundGapInSelection (rowsStep f l b w)"
    using Cons.prems rowsStep_gap_mono [of "rowsStep f l b w" f l bs] by auto
  then have st: "rowsStep f l b w = fold (rowStep f l) (snd b) (w\<lparr>lastBlockId := fst b\<rparr>)"
    by (auto simp: rowsStep_def split: if_splits)
  from Cons.prems have "\<not> foundGapInSelection (fold (rowsStep f l) bs (rowsStep f l b w))" by simp
  from Cons.IH [OF this] obtain L where
    "fold (rowsStep f l) bs (rowsStep f l b w) =
       (fold (rowStep f l) (concat (map snd bs)) (rowsStep f l b w))\<lparr>lastBlockId := L\<rparr>" ..
  then have "fold (rowsStep f l) (b # bs) w =
       (fold (rowStep f l) (concat (map snd (b # bs))) w)\<lparr>lastBlockId := L\<rparr>"
    by (simp add: st fold_rowStep_lastBlockId)
  then show ?case ..
qed

lemma rowsStep_outside:
  assumes "\<not> foundGapInSelection w" and "\<not> inActiveRange w"
    and "\<forall>x \<in> set (concat (map snd bs)). Some x \<noteq> f \<and> Some x \<noteq> l"
  shows "fold (rowsStep f l) bs w =
           w\<lparr>lastBlockId := (if bs = [] then lastBlockId w else fst (last bs))\<rparr>"
  using assms
proof (induction bs arbitrary: w)
  case Nil
  then show ?case by simp
next
  case (Cons b bs)
  have "fold (rowStep f l) (snd b) (w\<lparr>lastBlockId := fst b\<rparr>) = w\<lparr>lastBlockId := fst b\<rparr>"
    using Cons.prems by (intro fold_rowStep_outside) auto
  then have st: "rowsStep f l b w = w\<lparr>lastBlockId := fst b\<rparr>"
    using Cons.prems(1,2) by (simp add: rowsStep_def)
  have "fold (rowsStep f l) bs (w\<lparr>lastBlockId := fst b\<rparr>) =
          (w\<lparr>lastBlockId := fst b\<rparr>)
            \<lparr>lastBlockId := (if bs = [] then lastBlockId (w\<lparr>lastBlockId := fst b\<rparr>) else fst (last bs))\<rparr>"
    using Cons.prems by (intro Cons.IH) auto
  then show ?case by (simp add: st)
qed

lemma rowsStep_contiguous_no_gap:
  assumes "\<not> foundGapInSelection w" and "bs \<noteq> []" and "contiguous (map fst bs)"
    and "\<not> inActiveRange w \<or> lastBlockId w + 1 = fst (hd bs)"
  shows "\<not> foundGapInSelection (fold (rowsStep f l) bs w)"
  using assms
proof (induction bs arbitrary: w)
  case Nil
  then show ?case by simp
next
  case (Cons b bs)
  let ?w' = "fold (rowStep f l) (snd b) (w\<lparr>lastBlockId := fst b\<rparr>)"
  have st: "rowsStep f l b w = ?w'"
    using Cons.prems(1,4) by (auto simp: rowsStep_def)
  show ?case
  proof (cases "bs = []")
    case True
    then show ?thesis using Cons.prems(1) by (simp add: st)
  next
    case False
    then obtain b' bs' where bs: "bs = b' # bs'" by (cases bs) auto
    have "\<not> foundGapInSelection (fold (rowsStep f l) bs ?w')"
    proof (rule Cons.IH)
      show "\<not> foundGapInSelection ?w'" using Cons.prems(1) by simp
      show "bs \<noteq> []" by fact
      show "contiguous (map fst bs)" using Cons.prems(3) unfolding bs by auto
      show "\<not> inActiveRange ?w' \<or> lastBlockId ?w' + 1 = fst (hd bs)"
        using Cons.prems(3) unfolding bs by simp
    qed
    then show ?thesis by (simp add: st)
  qed
qed

lemma rowsStep_finds_gap:
  assumes "\<not> foundGapInSelection w" and "inActiveRange w"
    and "\<not> contiguous (lastBlockId w # map fst bs)"
    and "\<forall>x \<in> set (concat (map snd (butlast bs))). Some x \<noteq> f \<and> Some x \<noteq> l"
  shows "foundGapInSelection (fold (rowsStep f l) bs w)"
  using assms
proof (induction bs arbitrary: w)
  case Nil
  then show ?case by simp
next
  case (Cons b bs)
  show ?case
  proof (cases "lastBlockId w + 1 = fst b")
    case False
    then have "foundGapInSelection (rowsStep f l b w)"
      using Cons.prems(1,2) by (simp add: rowsStep_def)
    then show ?thesis using rowsStep_gap_mono [of "rowsStep f l b w" f l bs] by simp
  next
    case True
    with Cons.prems(3) have nc: "\<not> contiguous (fst b # map fst bs)" by simp
    then have ne: "bs \<noteq> []" by auto
    let ?w' = "w\<lparr>lastBlockId := fst b, result := result w @ snd b\<rparr>"
    have nb: "\<forall>x \<in> set (snd b). Some x \<noteq> f \<and> Some x \<noteq> l"
      using Cons.prems(4) ne by simp
    have "fold (rowStep f l) (snd b) (w\<lparr>lastBlockId := fst b\<rparr>) = ?w'"
      using fold_rowStep_inside [of "w\<lparr>lastBlockId := fst b\<rparr>" "snd b" f l] Cons.prems(2) nb by simp
    then have st: "rowsStep f l b w = ?w'"
      using Cons.prems(1) True by (simp add: rowsStep_def)
    have "foundGapInSelection (fold (rowsStep f l) bs ?w')"
    proof (rule Cons.IH)
      show "\<not> foundGapInSelection ?w'" using Cons.prems(1) by simp
      show "inActiveRange ?w'" using Cons.prems(2) by simp
      show "\<not> contiguous (lastBlockId ?w' # map fst bs)" using nc by simp
      show "\<forall>x \<in> set (concat (map snd (butlast bs))). Some x \<noteq> f \<and> Some x \<noteq> l"
        using Cons.prems(4) ne by simp
    qed
    then show ?thesis by (simp add: st)
  qed
qed

lemma anchor_hits:
  "A \<noteq> B \<Longrightarrow>
     length (filter (\<lambda>x. x = A \<or> x = B) xs) = count_list xs A + count_list xs B"
  by (induction xs) auto

lemma count_list_mem: "x \<in> set xs \<Longrightarrow> 0 < count_list xs x"
  using count_list_0_iff [of xs x] by auto

lemma range_never_closed:
  assumes "A \<noteq> B" and "count_list (concat (map snd (blockRows c))) A = 1"
    and "B \<notin> set (concat (map snd (blockRows c)))"
  shows "getRowNodesInRange (Some A) (Some B) c = []"
proof -
  let ?init = "\<lparr>result = [], lastBlockId = - 1, inActiveRange = False, foundGapInSelection = False\<rparr>"
  let ?w = "fold (rowsStep (Some A) (Some B)) (blockRows c) ?init"
  have "inActiveRange ?w" if "\<not> foundGapInSelection ?w"
  proof -
    from rowsStep_no_gap_flat [OF that] obtain L where
      "?w = (fold (rowStep (Some A) (Some B)) (concat (map snd (blockRows c))) ?init)\<lparr>lastBlockId := L\<rparr>" ..
    then have "inActiveRange ?w =
        inActiveRange (fold (rowStep (Some A) (Some B)) (concat (map snd (blockRows c))) ?init)"
      by simp
    also have "\<dots> = odd (length (filter (\<lambda>x. x = A \<or> x = B) (concat (map snd (blockRows c)))))"
      by (simp add: fold_rowStep_parity)
    also have "length (filter (\<lambda>x. x = A \<or> x = B) (concat (map snd (blockRows c)))) = 1"
      unfolding anchor_hits [OF assms(1)] using assms(2,3) count_list_0_iff [of _ B] by simp
    finally show ?thesis by simp
  qed
  then show ?thesis
    by (auto simp: getRowNodesInRange_walk missing_def exists_def Let_def)
qed

lemma count_list_anchor:
  assumes "x \<notin> set (pre @ mid @ post)" and "x \<noteq> y"
  shows "count_list (pre @ x # mid @ y # post) x = 1" and "count_list (pre @ y # mid @ x # post) x = 1"
  using assms by simp_all

lemma range_between_anchors:
  assumes ne: "A \<noteq> B"
    and split: "blockRows c = P @ R @ Q" and R: "R \<noteq> []"
    and inA: "A \<in> set (snd (hd R))" and inB: "B \<in> set (snd (last R))"
    and rows: "concat (map snd (blockRows c)) = pre @ A # mid @ B # post"
    and onceA: "A \<notin> set (pre @ mid @ post)" and onceB: "B \<notin> set (pre @ mid @ post)"
  shows "getRowNodesInRange (Some A) (Some B) c =
           (if contiguous (map fst R) then A # mid @ [B] else [])"
proof -
  let ?st = "rowsStep (Some A) (Some B)"
  let ?flat = "rowStep (Some A) (Some B)"
  let ?init = "\<lparr>result = [], lastBlockId = - 1, inActiveRange = False, foundGapInSelection = False\<rparr>"
  let ?rp = "concat (map snd P)" and ?rr = "concat (map snd R)" and ?rq = "concat (map snd Q)"
  let ?all = "concat (map snd (blockRows c))"
  have all: "?all = ?rp @ ?rr @ ?rq" by (simp add: split)
  have cA: "count_list ?all A = 1"
    unfolding rows using onceA ne by (rule count_list_anchor(1))
  have cB: "count_list ?all B = 1"
    unfolding rows using onceB ne [symmetric] by (rule count_list_anchor(2))
  have "hd R \<in> set R" "last R \<in> set R" using R by simp_all
  then have memA: "A \<in> set ?rr" and memB: "B \<in> set ?rr" using inA inB by auto
  have sumA: "count_list ?rp A + count_list ?rr A + count_list ?rq A = 1"
    using cA unfolding all by simp
  have sumB: "count_list ?rp B + count_list ?rr B + count_list ?rq B = 1"
    using cB unfolding all by simp
  have rrA: "count_list ?rr A = 1" "count_list ?rp A = 0" "count_list ?rq A = 0"
    using sumA count_list_mem [OF memA] by simp_all
  have rrB: "count_list ?rr B = 1" "count_list ?rp B = 0" "count_list ?rq B = 0"
    using sumB count_list_mem [OF memB] by simp_all
  have noP: "\<forall>x \<in> set ?rp. Some x \<noteq> Some A \<and> Some x \<noteq> Some B"
    using rrA(2) rrB(2) by (auto simp: count_list_0_iff)
  have noQ: "\<forall>x \<in> set ?rq. Some x \<noteq> Some A \<and> Some x \<noteq> Some B"
    using rrA(3) rrB(3) by (auto simp: count_list_0_iff)
  let ?w1 = "fold ?st P ?init"
  have w1: "?w1 = ?init\<lparr>lastBlockId := (if P = [] then lastBlockId ?init else fst (last P))\<rparr>"
    by (rule rowsStep_outside) (use noP in simp_all)
  have w1_flags: "\<not> foundGapInSelection ?w1" "\<not> inActiveRange ?w1"
    unfolding w1 by simp_all
  let ?w = "fold ?st (blockRows c) ?init"
  have walk: "?w = fold ?st Q (fold ?st R ?w1)" by (simp add: split)
  have out: "getRowNodesInRange (Some A) (Some B) c =
      (if foundGapInSelection ?w \<or> inActiveRange ?w then [] else result ?w)"
    by (simp add: getRowNodesInRange_walk missing_def exists_def Let_def)
  show ?thesis
  proof (cases "contiguous (map fst R)")
    case True
    let ?w2 = "fold ?st R ?w1"
    have g2: "\<not> foundGapInSelection ?w2"
      by (rule rowsStep_contiguous_no_gap [OF w1_flags(1) R True]) (simp add: w1_flags(2))
    have "\<not> foundGapInSelection (fold ?st (P @ R) ?init)" using g2 by simp
    from rowsStep_no_gap_flat [OF this] obtain L where
      "fold ?st (P @ R) ?init = (fold ?flat (concat (map snd (P @ R))) ?init)\<lparr>lastBlockId := L\<rparr>" ..
    then have "inActiveRange ?w2 = inActiveRange (fold ?flat (?rp @ ?rr) ?init)" by simp
    also have "\<dots> = odd (length (filter (\<lambda>x. x = A \<or> x = B) (?rp @ ?rr)))"
      by (simp add: fold_rowStep_parity)
    also have "length (filter (\<lambda>x. x = A \<or> x = B) (?rp @ ?rr)) = 2"
      unfolding anchor_hits [OF ne] using rrA rrB by simp
    finally have a2: "\<not> inActiveRange ?w2" by simp
    have "fold ?st Q ?w2 = ?w2\<lparr>lastBlockId := (if Q = [] then lastBlockId ?w2 else fst (last Q))\<rparr>"
      using g2 a2 noQ by (rule rowsStep_outside)
    then have g3: "\<not> foundGapInSelection ?w" unfolding walk using g2 by simp
    from rowsStep_no_gap_flat [OF g3] obtain L' where
      "?w = (fold ?flat ?all ?init)\<lparr>lastBlockId := L'\<rparr>" ..
    also have "fold ?flat ?all ?init = ?init\<lparr>result := result ?init @ A # mid @ [B]\<rparr>"
      unfolding rows using ne _ onceA onceB by (rule fold_rowStep_anchors) simp
    finally have "result ?w = A # mid @ [B]" "\<not> inActiveRange ?w" by simp_all
    with g3 True show ?thesis unfolding out by simp
  next
    case False
    then obtain r1 R' where R1: "R = r1 # R'" and R'ne: "R' \<noteq> []"
      by (cases R; cases "tl R") auto
    have inA1: "A \<in> set (snd r1)" using inA R1 by simp
    have inB': "B \<in> set (snd (last R'))" using inB R1 R'ne by simp
    have R'split: "R' = butlast R' @ [last R']" using R'ne by simp
    let ?rb = "concat (map snd (butlast R'))"
    have rr: "?rr = snd r1 @ ?rb @ snd (last R')"
      unfolding R1 using arg_cong [OF R'split, of "\<lambda>xs. concat (map snd xs)"] by simp
    have s1A: "count_list (snd r1) A = 1" "count_list ?rb A = 0"
      using rrA(1) count_list_mem [OF inA1] unfolding rr by simp_all
    have s1B: "count_list (snd r1) B = 0" "count_list ?rb B = 0"
      using rrB(1) count_list_mem [OF inB'] unfolding rr by simp_all
    have nob: "\<forall>x \<in> set ?rb. Some x \<noteq> Some A \<and> Some x \<noteq> Some B"
      using s1A(2) s1B(2) by (auto simp: count_list_0_iff)
    let ?w1' = "fold ?flat (snd r1) (?w1\<lparr>lastBlockId := fst r1\<rparr>)"
    have st: "?st r1 ?w1 = ?w1'" using w1_flags by (simp add: rowsStep_def)
    have "inActiveRange ?w1' = odd (length (filter (\<lambda>x. x = A \<or> x = B) (snd r1)))"
      using w1_flags(2) by (simp add: fold_rowStep_parity)
    also have "length (filter (\<lambda>x. x = A \<or> x = B) (snd r1)) = 1"
      unfolding anchor_hits [OF ne] using s1A(1) s1B(1) by simp
    finally have a1: "inActiveRange ?w1'" by simp
    have g1: "\<not> foundGapInSelection ?w1'" using w1_flags(1) by simp
    have "foundGapInSelection (fold ?st R' ?w1')"
    proof (rule rowsStep_finds_gap [OF g1 a1])
      show "\<not> contiguous (lastBlockId ?w1' # map fst R')" using False R1 by simp
      show "\<forall>x \<in> set ?rb. Some x \<noteq> Some A \<and> Some x \<noteq> Some B" by (rule nob)
    qed
    then have "foundGapInSelection (fold ?st R ?w1)" by (simp add: R1 st)
    then have "foundGapInSelection ?w" unfolding walk by (rule rowsStep_gap_mono)
    with False show ?thesis unfolding out by simp
  qed
qed

lemma rowStep_commute: "rowStep f l = rowStep l f"
  by (auto simp: rowStep_def fun_eq_iff Let_def)

lemma getRowNodesInRange_commute:
  "getRowNodesInRange (Some B) (Some A) c = getRowNodesInRange (Some A) (Some B) c"
proof -
  have "rowsStep (Some B) (Some A) = rowsStep (Some A) (Some B)"
    by (simp add: rowsStep_def fun_eq_iff rowStep_commute [of "Some B" "Some A"])
  then show ?thesis by (simp add: getRowNodesInRange_walk missing_def exists_def)
qed

lemma exampleRangeCache_rows:
  "blockRows exampleRangeCache = [(0, [10, 11]), (1, [12, 13]), (2, [14, 15]), (4, [18, 19])]"
  by (simp add: exampleRangeCache_def example_defs blockRows_def)

text \<open>
  Claim C5, as stated, fails for a pair of identical anchors: the single hit opens the
  range and nothing closes it, so the result is empty and not the one row.
\<close>

theorem identical_anchors_counterexample:
  "11 \<in> set (concat (map snd (blockRows exampleRangeCache)))
   \<and> getRowNodesInRange (Some 11) (Some 11) exampleRangeCache = []"
  by (simp add: getRowNodesInRange_walk exampleRangeCache_rows rowsStep_def rowStep_def
      missing_def exists_def)

text \<open>
  Claim C5, amended. For two distinct anchors \<open>A\<close> and \<open>B\<close>, each handed out exactly once,
  \<open>A\<close> first, let \<open>R\<close> be the run of registered blocks from the block of \<open>A\<close> to the
  block of \<open>B\<close>. If the block numbers of \<open>R\<close> go up by one, the result is the rows from
  \<open>A\<close> to \<open>B\<close> inclusive, in the order of the walk; if a block number is missing in
  \<open>R\<close>, the result is empty. If \<open>A\<close> is handed out once and \<open>B\<close> never, the result is
  empty. The two anchors may be passed in either order.
\<close>

theorem getRowNodesInRange_between_anchors:
  assumes "A \<noteq> B"
  shows "(blockRows c = P @ R @ Q \<and> R \<noteq> []
          \<and> A \<in> set (snd (hd R)) \<and> B \<in> set (snd (last R))
          \<and> concat (map snd (blockRows c)) = pre @ A # mid @ B # post
          \<and> A \<notin> set (pre @ mid @ post) \<and> B \<notin> set (pre @ mid @ post)
          \<longrightarrow> getRowNodesInRange (Some A) (Some B) c =
                (if contiguous (map fst R) then A # mid @ [B] else []))
       \<and> (count_list (concat (map snd (blockRows c))) A = 1
          \<and> B \<notin> set (concat (map snd (blockRows c)))
          \<longrightarrow> getRowNodesInRange (Some A) (Some B) c = [])
       \<and> getRowNodesInRange (Some B) (Some A) c = getRowNodesInRange (Some A) (Some B) c"
proof (intro conjI impI)
  assume h: "blockRows c = P @ R @ Q \<and> R \<noteq> []
          \<and> A \<in> set (snd (hd R)) \<and> B \<in> set (snd (last R))
          \<and> concat (map snd (blockRows c)) = pre @ A # mid @ B # post
          \<and> A \<notin> set (pre @ mid @ post) \<and> B \<notin> set (pre @ mid @ post)"
  show "getRowNodesInRange (Some A) (Some B) c =
          (if contiguous (map fst R) then A # mid @ [B] else [])"
    by (rule range_between_anchors [OF assms]) (use h in blast)+
next
  assume "count_list (concat (map snd (blockRows c))) A = 1
          \<and> B \<notin> set (concat (map snd (blockRows c)))"
  then show "getRowNodesInRange (Some A) (Some B) c = []"
    using range_never_closed [OF assms] by blast
next
  show "getRowNodesInRange (Some B) (Some A) c = getRowNodesInRange (Some A) (Some B) c"
    by (rule getRowNodesInRange_commute)
qed

theorem getRowNodesInRange_between_anchors_witness:
  "getRowNodesInRange (Some 11) (Some 14) exampleRangeCache = [11, 12, 13, 14]
   \<and> getRowNodesInRange (Some 14) (Some 18) exampleRangeCache = []
   \<and> getRowNodesInRange (Some 11) (Some 99) exampleRangeCache = []"
  using getRowNodesInRange_between_anchors
          [of 11 14 exampleRangeCache "[]" "[(0, [10, 11]), (1, [12, 13]), (2, [14, 15])]"
              "[(4, [18, 19])]" "[10]" "[12, 13]" "[15, 18, 19]"]
        getRowNodesInRange_between_anchors
          [of 14 18 exampleRangeCache "[(0, [10, 11]), (1, [12, 13])]" "[(2, [14, 15]), (4, [18, 19])]"
              "[]" "[10, 11, 12, 13]" "[15]" "[19]"]
        getRowNodesInRange_between_anchors [of 11 99 exampleRangeCache]
  by (simp add: exampleRangeCache_rows)

section \<open>The block count\<close>

lemma length_alist_update:
  "length (AList.update i b al) = (if i \<in> fst ` set al then length al else Suc (length al))"
  using arg_cong [OF update_keys [of i b al], of length] by (simp split: if_splits)

lemma setBlock_count_fresh:
  assumes "blockCount c = int (length (blocks c))" and "i \<notin> fst ` set (blocks c)"
  shows "blockCount (setBlock i b c) = int (length (blocks (setBlock i b c)))"
  using assms by (simp add: length_alist_update)

lemma setBlock_count_replaced:
  assumes "blockCount c = int (length (blocks c))" and "i \<in> fst ` set (blocks c)"
  shows "blockCount (setBlock i b c) = int (length (blocks (setBlock i b c))) + 1"
  using assms by (simp add: length_alist_update)

lemma destroyBlock_count_registered:
  assumes "blockCount c = int (length (blocks c))" and "registry_ok c"
    and "(k, b) \<in> set (blocks c)"
  shows "blockCount (destroyBlock b c) = int (length (blocks (destroyBlock b c)))"
proof -
  have d: "distinct (map fst (blocks c))" using assms(2) by (simp add: registry_ok_def)
  have k: "getBlockNumber b = k" using registry_ok_key [OF assms(2,3)] .
  have "k \<in> set (map fst (blocks c))" using assms(3) by (auto intro: rev_image_eqI)
  then have "length (removeAll k (map fst (blocks c))) = length (map fst (blocks c)) - 1"
    using d by (simp add: distinct_remove1_removeAll [symmetric] length_remove1)
  then have "length (AList.delete k (blocks c)) = length (blocks c) - 1"
    using arg_cong [OF delete_keys [of k "blocks c"], of length] by simp
  moreover obtain n where "length (blocks c) = Suc n" using assms(3) by (cases "blocks c") auto
  ultimately show ?thesis using assms(1) k by simp
qed

text \<open>
  Claim C7, as stated, fails when a block is stored under a number that is already
  registered: \<open>setBlock\<close> adds one to \<open>blockCount\<close> whether or not the key is new, and
  the old block is only replaced. Creating a second block with the number 0 leaves one
  key and a count of 2.
\<close>

theorem blockCount_overcounts_replaced_block:
  "blockCount (exampleCache (exampleParams 1 10 5 None)
      [exampleBlock 0 0 STATE_LOADED [], exampleReplacement]) = 2
   \<and> blocks (exampleCache (exampleParams 1 10 5 None)
      [exampleBlock 0 0 STATE_LOADED [], exampleReplacement]) = [(0, exampleReplacement)]
   \<and> length (getBlockIdsSorted (exampleCache (exampleParams 1 10 5 None)
      [exampleBlock 0 0 STATE_LOADED [], exampleReplacement])) = 1"
  by (simp add: example_defs exampleReplacement_def)

lemma length_alist_delete:
  assumes "distinct (map fst al)" and "k \<in> fst ` set al"
  shows "Suc (length (AList.delete k al)) = length al"
proof -
  have k: "k \<in> set (map fst al)" using assms(2) by simp
  then obtain n where n: "length al = Suc n" by (cases al) auto
  have "length (removeAll k (map fst al)) = length (map fst al) - 1"
    using assms(1) k by (simp add: distinct_remove1_removeAll [symmetric] length_remove1)
  then have "Suc (length (removeAll k (map fst al))) = length (map fst al)"
    using n by simp
  then show ?thesis
    using arg_cong [OF delete_keys [of k al], of length] by simp
qed

lemma applyOp_keeps_count:
  assumes "distinct (map fst (blocks c))" and "blockCount c = int (length (blocks c))"
    and "admissible [x] c"
  shows "distinct (map fst (blocks (applyOp x c)))
       \<and> blockCount (applyOp x c) = int (length (blocks (applyOp x c)))"
proof (cases x)
  case (SetBlock i b)
  then show ?thesis
    using assms by (simp add: distinct_update length_alist_update)
next
  case (DestroyBlock b)
  have "Suc (length (AList.delete (getBlockNumber b) (blocks c))) = length (blocks c)"
    using assms(1,3) DestroyBlock by (intro length_alist_delete) simp_all
  then show ?thesis
    using assms(1,2) DestroyBlock by (simp add: distinct_delete)
qed

lemma admissible_keeps_count:
  assumes "distinct (map fst (blocks c))" and "blockCount c = int (length (blocks c))"
    and "admissible ops c"
  shows "distinct (map fst (blocks (fold applyOp ops c)))
       \<and> blockCount (fold applyOp ops c) = int (length (blocks (fold applyOp ops c)))"
  using assms
proof (induction ops arbitrary: c)
  case Nil
  then show ?case by simp
next
  case (Cons x ops)
  have a: "admissible [x] c" "admissible ops (applyOp x c)"
    using Cons.prems(3) by (cases x; simp)+
  from applyOp_keeps_count [OF Cons.prems(1,2) a(1)]
  have "distinct (map fst (blocks (applyOp x c)))"
    "blockCount (applyOp x c) = int (length (blocks (applyOp x c)))" by simp_all
  from Cons.IH [OF this a(2)] show ?case by simp
qed

text \<open>
  Claim C7, amended. Starting from a fresh cache, after every sequence of \<open>setBlock\<close>
  calls, each under a block number that is not registered at that moment, and
  \<open>destroyBlock\<close> calls, each for a block whose number is registered at that moment,
  \<open>blockCount\<close> equals the number of keys of \<open>blocks\<close>.
\<close>

theorem blockCount_counts_keys:
  assumes "admissible ops (newCache p fr lr)"
  shows "blockCount (fold applyOp ops (newCache p fr lr)) =
           int (card (fst ` set (blocks (fold applyOp ops (newCache p fr lr)))))
       \<and> blockCount (fold applyOp ops (newCache p fr lr)) =
           int (length (getBlockIdsSorted (fold applyOp ops (newCache p fr lr))))"
proof -
  let ?c = "fold applyOp ops (newCache p fr lr)"
  have "distinct (map fst (blocks (newCache p fr lr)))"
    "blockCount (newCache p fr lr) = int (length (blocks (newCache p fr lr)))"
    by (simp_all add: newCache_def)
  from admissible_keeps_count [OF this assms]
  have d: "distinct (map fst (blocks ?c))" and n: "blockCount ?c = int (length (blocks ?c))"
    by simp_all
  have "card (fst ` set (blocks ?c)) = length (map fst (blocks ?c))"
    using distinct_card [OF d] by simp
  with n show ?thesis by (simp add: getBlockIdsSorted_def)
qed

theorem blockCount_counts_keys_witness:
  "blockCount (fold applyOp
      [SetBlock 0 (exampleBlock 0 0 STATE_LOADED []), SetBlock 1 (exampleBlock 1 1 STATE_LOADED []),
       DestroyBlock (exampleBlock 0 0 STATE_LOADED []), SetBlock 0 exampleReplacement]
      (newCache (exampleParams 1 10 5 None) 0 0)) = 2
   \<and> map fst (blocks (fold applyOp
      [SetBlock 0 (exampleBlock 0 0 STATE_LOADED []), SetBlock 1 (exampleBlock 1 1 STATE_LOADED []),
       DestroyBlock (exampleBlock 0 0 STATE_LOADED []), SetBlock 0 exampleReplacement]
      (newCache (exampleParams 1 10 5 None) 0 0))) = [1, 0]"
  using blockCount_counts_keys
          [of "[SetBlock 0 (exampleBlock 0 0 STATE_LOADED []), SetBlock 1 (exampleBlock 1 1 STATE_LOADED []),
       DestroyBlock (exampleBlock 0 0 STATE_LOADED []), SetBlock 0 exampleReplacement]"
              "exampleParams 1 10 5 None" 0 0]
  by (simp add: example_defs exampleReplacement_def)

end
